theory Spec2Isabelle
  imports Complex_Main "HOL-Library.Log_Nat"
begin

section \<open>JavaScript Number values\<close>

text \<open>
  A JavaScript Number is an IEEE 754 binary64 value. The finite ones are rationals; the
  model carries the rational itself and rounds after every arithmetic operation, to nearest
  with ties to the even significand, as the language requires. The two zeros are identified:
  nothing in this program divides by a zero or inspects its sign.
\<close>

datatype jsnum = NaN | NInf | Fin rat | PInf

definition round_half_even :: "rat \<Rightarrow> int" where
  "round_half_even q =
     (let f = \<lfloor>q\<rfloor>; r = q - of_int f
      in if r < 1 / 2 then f else if 1 / 2 < r then f + 1 else if even f then f else f + 1)"

definition pow2 :: "int \<Rightarrow> rat" where
  "pow2 e = 2 powi e"

text \<open>The exponent \<open>e\<close> with \<open>2^e \<le> q < 2^(e+1)\<close>, for a positive \<open>q\<close>.\<close>

definition ilog2 :: "rat \<Rightarrow> int" where
  "ilog2 q =
     (let c = bitlen (fst (quotient_of q)) - bitlen (snd (quotient_of q))
      in if pow2 c \<le> q then c else c - 1)"

text \<open>
  Rounding to binary64: 53 significant bits, the unit in the last place never below
  \<open>2^-1074\<close> (subnormal numbers), and a result of magnitude \<open>2^1024\<close> is an infinity.
\<close>

definition rnd64 :: "rat \<Rightarrow> jsnum" where
  "rnd64 q =
     (if q = 0 then Fin 0
      else let e = max (ilog2 \<bar>q\<bar>) (- 1022);
               u = pow2 (e - 52);
               v = of_int (round_half_even (q / u)) * u
           in if pow2 1024 \<le> \<bar>v\<bar> then (if 0 < q then PInf else NInf) else Fin v)"

text \<open>The Number denoted by a decimal literal of the source text, such as \<open>1.2\<close>.\<close>

definition num_lit :: "rat \<Rightarrow> jsnum" where
  "num_lit q = rnd64 q"

fun sign :: "jsnum \<Rightarrow> int" where
  "sign NaN = 0"
| "sign NInf = - 1"
| "sign PInf = 1"
| "sign (Fin q) = (if q = 0 then 0 else if 0 < q then 1 else - 1)"

text \<open>The operators \<open>*\<close>, \<open>+\<close> and \<open>-\<close> on Numbers.\<close>

fun fmul :: "jsnum \<Rightarrow> jsnum \<Rightarrow> jsnum" where
  "fmul (Fin a) (Fin b) = rnd64 (a * b)"
| "fmul x y =
     (if sign x = 0 \<or> sign y = 0 then NaN else if sign x = sign y then PInf else NInf)"

fun fadd :: "jsnum \<Rightarrow> jsnum \<Rightarrow> jsnum" where
  "fadd (Fin a) (Fin b) = rnd64 (a + b)"
| "fadd NaN y = NaN"
| "fadd x NaN = NaN"
| "fadd PInf NInf = NaN"
| "fadd NInf PInf = NaN"
| "fadd PInf y = PInf"
| "fadd NInf y = NInf"
| "fadd x PInf = PInf"
| "fadd x NInf = NInf"

fun fneg :: "jsnum \<Rightarrow> jsnum" where
  "fneg NaN = NaN"
| "fneg NInf = PInf"
| "fneg PInf = NInf"
| "fneg (Fin q) = Fin (- q)"

definition fsub :: "jsnum \<Rightarrow> jsnum \<Rightarrow> jsnum" where
  "fsub x y = fadd x (fneg y)"

text \<open>The comparison \<open>x < y\<close> on Numbers: false as soon as one side is NaN.\<close>

fun flt :: "jsnum \<Rightarrow> jsnum \<Rightarrow> bool" where
  "flt (Fin a) (Fin b) = (a < b)"
| "flt NInf (Fin b) = True"
| "flt NInf PInf = True"
| "flt (Fin a) PInf = True"
| "flt x y = False"

section \<open>JavaScript values\<close>

text \<open>
  The values this program handles besides strings and booleans: \<open>undefined\<close> (a missing
  property or array element), Numbers, and objects. The only objects it can meet are the
  members of \<open>Object.prototype\<close>, all of which convert to NaN and are truthy.
\<close>

datatype jsval = Undefined | Num jsnum | Obj

fun ToNumber :: "jsval \<Rightarrow> jsnum" where
  "ToNumber Undefined = NaN"
| "ToNumber (Num n) = n"
| "ToNumber Obj = NaN"

fun truthy :: "jsval \<Rightarrow> bool" where
  "truthy Undefined = False"
| "truthy (Num n) = (n \<noteq> NaN \<and> n \<noteq> Fin 0)"
| "truthy Obj = True"

text \<open>\<open>v < w\<close>, \<open>v > w\<close> and \<open>v === n\<close> for a Number \<open>n\<close>.\<close>

definition js_lt :: "jsval \<Rightarrow> jsval \<Rightarrow> bool" where
  "js_lt v w = flt (ToNumber v) (ToNumber w)"

definition js_gt :: "jsval \<Rightarrow> jsval \<Rightarrow> bool" where
  "js_gt v w = flt (ToNumber w) (ToNumber v)"

fun strict_eq :: "jsval \<Rightarrow> jsnum \<Rightarrow> bool" where
  "strict_eq (Num a) n = (a \<noteq> NaN \<and> a = n)"
| "strict_eq v n = False"

text \<open>\<open>xs[i]\<close> on an array of Numbers: \<open>undefined\<close> out of range.\<close>

definition elem_at :: "jsnum list \<Rightarrow> nat \<Rightarrow> jsval" where
  "elem_at xs i = (if i < length xs then Num (xs ! i) else Undefined)"

section \<open>The quote estimator\<close>

text \<open>
  The object literal \<open>multipliers\<close> has four own properties and inherits from
  \<open>Object.prototype\<close>; the lookup \<open>multipliers[type]\<close> walks the prototype chain.
\<close>

definition own_multipliers :: "(string \<times> jsnum) list" where
  "own_multipliers =
     [(''residential'', num_lit 1),
      (''commercial'', num_lit (12 / 10)),
      (''abandoned'', num_lit (15 / 10)),
      (''construction'', num_lit (8 / 10))]"

definition Object_prototype_keys :: "string list" where
  "Object_prototype_keys =
     [''constructor'', ''hasOwnProperty'', ''isPrototypeOf'', ''propertyIsEnumerable'',
      ''toLocaleString'', ''toString'', ''valueOf'', ''__proto__'',
      ''__defineGetter__'', ''__defineSetter__'', ''__lookupGetter__'', ''__lookupSetter__'']"

definition multipliers :: "string \<Rightarrow> jsval" where
  "multipliers ty =
     (case map_of own_multipliers ty of
        Some m \<Rightarrow> Num m
      | None \<Rightarrow> if ty \<in> set Object_prototype_keys then Obj else Undefined)"

text \<open>\<open>calculateQuote\<close> of the current revision (four parameters, base rate 2.5).\<close>

definition calculateQuote :: "jsnum \<Rightarrow> string \<Rightarrow> bool \<Rightarrow> bool \<Rightarrow> jsnum" where
  "calculateQuote sz ty hasHazard hasLawn =
     (let baseRate = num_lit (25 / 10);
          multiplier = (if truthy (multipliers ty) then multipliers ty else Num (num_lit 1));
          estimate = fmul (fmul sz baseRate) (ToNumber multiplier);
          estimate = (if hasHazard then fadd estimate (num_lit 50) else estimate);
          estimate = (if hasLawn then fadd estimate (num_lit 99) else estimate)
      in estimate)"

text \<open>\<open>calculateQuote\<close> of \<open>script.js\<close> (two parameters, base rate 0.50).\<close>

definition calculateQuote_script :: "jsnum \<Rightarrow> string \<Rightarrow> jsnum" where
  "calculateQuote_script sz ty =
     (let baseRate = num_lit (50 / 100);
          multiplier = (if truthy (multipliers ty) then multipliers ty else Num (num_lit 1))
      in fmul (fmul sz baseRate) (ToNumber multiplier))"

section \<open>Strings to Numbers\<close>

text \<open>
  \<open>String.prototype.split\<close> with a one-character separator, and \<open>Number\<close> applied to a
  string: white space is trimmed, the empty string is 0, a literal in base 16, 8 or 2 or a
  signed decimal literal denotes the nearest Number, anything else is NaN. Strings are
  sequences of code units below 256.
\<close>

fun split_js :: "char \<Rightarrow> string \<Rightarrow> string list" where
  "split_js c [] = [[]]"
| "split_js c (x # xs) =
     (if x = c then [] # split_js c xs
      else case split_js c xs of y # ys \<Rightarrow> (x # y) # ys | [] \<Rightarrow> [[x]])"

definition is_ws :: "char \<Rightarrow> bool" where
  "is_ws c = (of_char c \<in> {9, 10, 11, 12, 13, 32, 160 :: nat})"

definition trim :: "string \<Rightarrow> string" where
  "trim s = rev (dropWhile is_ws (rev (dropWhile is_ws s)))"

text \<open>The value of a character as a digit in base \<open>b\<close>.\<close>

definition digit_of :: "nat \<Rightarrow> char \<Rightarrow> nat option" where
  "digit_of b c =
     (let n = of_char c :: nat;
          d = (if 48 \<le> n \<and> n \<le> 57 then n - 48
               else if 97 \<le> n \<and> n \<le> 122 then n - 87
               else if 65 \<le> n \<and> n \<le> 90 then n - 55
               else 36)
      in if d < b then Some d else None)"

definition is_digit :: "char \<Rightarrow> bool" where
  "is_digit c = (digit_of 10 c \<noteq> None)"

definition all_digits :: "nat \<Rightarrow> string \<Rightarrow> bool" where
  "all_digits b s = (s \<noteq> [] \<and> list_all (\<lambda>c. digit_of b c \<noteq> None) s)"

definition digits_val :: "nat \<Rightarrow> string \<Rightarrow> nat" where
  "digits_val b s = foldl (\<lambda>acc c. acc * b + (case digit_of b c of Some d \<Rightarrow> d | None \<Rightarrow> 0)) 0 s"

definition radix_literal :: "nat \<Rightarrow> string \<Rightarrow> jsnum" where
  "radix_literal b ds = (if all_digits b ds then rnd64 (of_nat (digits_val b ds)) else NaN)"

definition exponent_part :: "string \<Rightarrow> int option" where
  "exponent_part r =
     (case r of
        [] \<Rightarrow> Some 0
      | c # t \<Rightarrow>
          if c = CHR ''e'' \<or> c = CHR ''E'' then
            (case t of
               [] \<Rightarrow> None
             | s # d \<Rightarrow>
                 if s = CHR ''+'' then
                   (if all_digits 10 d then Some (int (digits_val 10 d)) else None)
                 else if s = CHR ''-'' then
                   (if all_digits 10 d then Some (- int (digits_val 10 d)) else None)
                 else if all_digits 10 t then Some (int (digits_val 10 t)) else None)
          else None)"

definition dec_value :: "string \<Rightarrow> rat option" where
  "dec_value u =
     (let ip = takeWhile is_digit u;
          r1 = dropWhile is_digit u;
          fp = (case r1 of [] \<Rightarrow> [] | c # t \<Rightarrow> if c = CHR ''.'' then takeWhile is_digit t else []);
          r2 = (case r1 of [] \<Rightarrow> [] | c # t \<Rightarrow> if c = CHR ''.'' then dropWhile is_digit t else r1)
      in if ip = [] \<and> fp = [] then None
         else case exponent_part r2 of
                None \<Rightarrow> None
              | Some ex \<Rightarrow>
                  Some ((of_nat (digits_val 10 ip) + of_nat (digits_val 10 fp) / 10 ^ length fp)
                        * 10 powi ex))"

definition unsigned_literal :: "bool \<Rightarrow> string \<Rightarrow> jsnum" where
  "unsigned_literal neg u =
     (if u = ''Infinity'' then (if neg then NInf else PInf)
      else case dec_value u of
             None \<Rightarrow> NaN
           | Some q \<Rightarrow> rnd64 (if neg then - q else q))"

definition StrDecimalLiteral :: "string \<Rightarrow> jsnum" where
  "StrDecimalLiteral t =
     (case t of
        [] \<Rightarrow> NaN
      | c # u \<Rightarrow>
          if c = CHR ''+'' then unsigned_literal False u
          else if c = CHR ''-'' then unsigned_literal True u
          else unsigned_literal False t)"

definition StrNumericLiteral :: "string \<Rightarrow> jsnum" where
  "StrNumericLiteral t =
     (case t of
        c # x # ds \<Rightarrow>
          if c = CHR ''0'' \<and> (x = CHR ''x'' \<or> x = CHR ''X'') then radix_literal 16 ds
          else if c = CHR ''0'' \<and> (x = CHR ''o'' \<or> x = CHR ''O'') then radix_literal 8 ds
          else if c = CHR ''0'' \<and> (x = CHR ''b'' \<or> x = CHR ''B'') then radix_literal 2 ds
          else StrDecimalLiteral t
      | _ \<Rightarrow> StrDecimalLiteral t)"

definition Number :: "string \<Rightarrow> jsnum" where
  "Number s = (let t = trim s in if t = [] then Fin 0 else StrNumericLiteral t)"

section \<open>Dates\<close>

text \<open>
  The constructor \<open>new Date(year, month, date)\<close> and the method \<open>getDay\<close>, after the
  abstract operations of the language standard. A time value is a number of milliseconds
  or NaN (\<open>None\<close>). It is computed on integers: a time value that survives \<open>TimeClip\<close>
  is below \<open>2^53\<close>, where binary64 arithmetic is exact.

  The local time zone is a parameter, since the standard leaves it to the host: the offset
  of local time from UTC, in milliseconds, as \<open>LocalTZA(t, isUTC)\<close> gives it. It depends on
  the time it is asked for: \<open>tza_at_utc\<close> is the offset in force at a UTC instant,
  \<open>tza_at_local\<close> the offset by which a local time is read. \<open>UTC\<close> turns a local time into
  an instant with the latter, \<open>LocalTime\<close> an instant into a local time with the former.
\<close>

record zone =
  tza_at_utc :: "int \<Rightarrow> int"
  tza_at_local :: "int \<Rightarrow> int"

definition msPerDay :: int where
  "msPerDay = 86400000"

definition trunc :: "rat \<Rightarrow> int" where
  "trunc q = (if 0 \<le> q then \<lfloor>q\<rfloor> else \<lceil>q\<rceil>)"

definition MakeFullYear :: "jsnum \<Rightarrow> jsnum" where
  "MakeFullYear y =
     (case y of
        Fin q \<Rightarrow> (let t = trunc q in if 0 \<le> t \<and> t \<le> 99 then Fin (of_int (1900 + t)) else Fin (of_int t))
      | _ \<Rightarrow> y)"

definition InLeapYear :: "int \<Rightarrow> bool" where
  "InLeapYear y = (y mod 4 = 0 \<and> (y mod 100 \<noteq> 0 \<or> y mod 400 = 0))"

definition DayFromYear :: "int \<Rightarrow> int" where
  "DayFromYear y = 365 * (y - 1970) + (y - 1969) div 4 - (y - 1901) div 100 + (y - 1601) div 400"

text \<open>The day within the year on which month \<open>mn\<close> (0 to 11) begins.\<close>

definition month_start :: "int \<Rightarrow> bool \<Rightarrow> int" where
  "month_start mn leap =
     [0, 31, 59, 90, 120, 151, 181, 212, 243, 273, 304, 334] ! nat mn
       + (if leap \<and> 2 \<le> mn then 1 else 0)"

definition MakeDay :: "jsnum \<Rightarrow> jsnum \<Rightarrow> jsnum \<Rightarrow> int option" where
  "MakeDay year month date =
     (case (year, month, date) of
        (Fin y, Fin m, Fin d) \<Rightarrow>
          (let ym = trunc y + trunc m div 12; mn = trunc m mod 12
           in Some (DayFromYear ym + month_start mn (InLeapYear ym) + trunc d - 1))
      | _ \<Rightarrow> None)"

definition MakeDate :: "int option \<Rightarrow> int \<Rightarrow> int option" where
  "MakeDate day time = map_option (\<lambda>d. d * msPerDay + time) day"

definition UTC :: "zone \<Rightarrow> int \<Rightarrow> int" where
  "UTC z t = t - tza_at_local z t"

definition LocalTime :: "zone \<Rightarrow> int \<Rightarrow> int" where
  "LocalTime z t = t + tza_at_utc z t"

definition TimeClip :: "int option \<Rightarrow> int option" where
  "TimeClip time =
     (case time of
        None \<Rightarrow> None
      | Some t \<Rightarrow> if 8640000000000000 < \<bar>t\<bar> then None else Some t)"

definition new_Date :: "zone \<Rightarrow> jsval \<Rightarrow> jsval \<Rightarrow> jsval \<Rightarrow> int option" where
  "new_Date z year month date =
     (let yr = MakeFullYear (ToNumber year);
          finalDate = MakeDate (MakeDay yr (ToNumber month) (ToNumber date)) 0
      in TimeClip (map_option (UTC z) finalDate))"

definition Day :: "int \<Rightarrow> int" where
  "Day t = t div msPerDay"

definition WeekDay :: "int \<Rightarrow> int" where
  "WeekDay t = (Day t + 4) mod 7"

definition getDay :: "zone \<Rightarrow> int option \<Rightarrow> jsnum" where
  "getDay z tv =
     (case tv of None \<Rightarrow> NaN | Some t \<Rightarrow> Fin (of_int (WeekDay (LocalTime z t))))"

section \<open>The availability check\<close>

text \<open>
  An argument is a string or some other primitive value; calling \<open>split\<close> on the latter
  throws a TypeError, which the \<open>try\<close> block of the function catches.
\<close>

datatype jsarg = JStr string | JOther

datatype js_error = TypeError

definition split_method :: "jsarg \<Rightarrow> char \<Rightarrow> js_error + string list" where
  "split_method x sep = (case x of JStr s \<Rightarrow> Inr (split_js sep s) | JOther \<Rightarrow> Inl TypeError)"

text \<open>The weekday the function computes from \<open>dateStr\<close>.\<close>

definition date_day :: "zone \<Rightarrow> string \<Rightarrow> jsnum" where
  "date_day z dateStr =
     (let dateParts = map Number (split_js CHR ''-'' dateStr);
          dateObj = new_Date z (elem_at dateParts 0)
                      (Num (fsub (ToNumber (elem_at dateParts 1)) (num_lit 1))) (elem_at dateParts 2)
      in getDay z dateObj)"

text \<open>The body of the \<open>try\<close> block.\<close>

definition availability_body :: "zone \<Rightarrow> jsarg \<Rightarrow> jsarg \<Rightarrow> js_error + bool" where
  "availability_body z dateStr timeStr =
     (case split_method dateStr CHR ''-'' of
        Inl e \<Rightarrow> Inl e
      | Inr ds \<Rightarrow>
          (case split_method timeStr CHR '':'' of
             Inl e \<Rightarrow> Inl e
           | Inr ts \<Rightarrow>
               (let dateParts = map Number ds;
                    timeParts = map Number ts;
                    dateObj = new_Date z (elem_at dateParts 0)
                                (Num (fsub (ToNumber (elem_at dateParts 1)) (num_lit 1))) (elem_at dateParts 2);
                    day = getDay z dateObj;
                    hour = elem_at timeParts 0;
                    minute = elem_at timeParts 1;
                    startHour = num_lit 8;
                    endHour = num_lit 17
                in Inr (if flt day (num_lit 1) \<or> flt (num_lit 5) day then False
                        else if js_lt hour (Num startHour) \<or> js_gt hour (Num endHour) then False
                        else if strict_eq hour endHour \<and> js_gt minute (Num (num_lit 0)) then False
                        else True))))"

definition isWithinAvailability :: "zone \<Rightarrow> jsarg \<Rightarrow> jsarg \<Rightarrow> bool" where
  "isWithinAvailability z dateStr timeStr =
     (case availability_body z dateStr timeStr of Inl e \<Rightarrow> False | Inr b \<Rightarrow> b)"

section \<open>Dates and times as the forms write them\<close>

text \<open>
  The formats named by the function's documentation: \<open>YYYY-MM-DD\<close> and \<open>HH:MM\<close>, with
  zero-padded decimal fields.
\<close>

definition digit_char :: "nat \<Rightarrow> char" where
  "digit_char d = ''0123456789'' ! (d mod 10)"

definition fmt2 :: "nat \<Rightarrow> string" where
  "fmt2 n = [digit_char (n div 10), digit_char n]"

definition fmt4 :: "nat \<Rightarrow> string" where
  "fmt4 n = [digit_char (n div 1000), digit_char (n div 100), digit_char (n div 10), digit_char n]"

definition date_string :: "nat \<Rightarrow> nat \<Rightarrow> nat \<Rightarrow> string" where
  "date_string y m d = fmt4 y @ ''-'' @ fmt2 m @ ''-'' @ fmt2 d"

definition time_string :: "nat \<Rightarrow> nat \<Rightarrow> string" where
  "time_string h m = fmt2 h @ '':'' @ fmt2 m"

section \<open>The Gregorian calendar\<close>

text \<open>
  The day of the week of a calendar date, found by counting days: the lengths of the years
  and months before the date, from the proleptic Gregorian year 0, and one date whose day
  is known, Monday 10 June 2024. Sunday is 0 and Saturday is 6.
\<close>

definition leap_year :: "nat \<Rightarrow> bool" where
  "leap_year y = (y mod 4 = 0 \<and> (y mod 100 \<noteq> 0 \<or> y mod 400 = 0))"

definition days_in_year :: "nat \<Rightarrow> nat" where
  "days_in_year y = (if leap_year y then 366 else 365)"

definition days_in_month :: "nat \<Rightarrow> nat \<Rightarrow> nat" where
  "days_in_month y m =
     (if m = 2 then (if leap_year y then 29 else 28)
      else if m = 4 \<or> m = 6 \<or> m = 9 \<or> m = 11 then 30
      else 31)"

fun days_before_year :: "nat \<Rightarrow> nat" where
  "days_before_year 0 = 0"
| "days_before_year (Suc y) = days_before_year y + days_in_year y"

fun days_before_month :: "nat \<Rightarrow> nat \<Rightarrow> nat" where
  "days_before_month y 0 = 0"
| "days_before_month y (Suc m) = (if m = 0 then 0 else days_before_month y m + days_in_month y m)"

definition day_number :: "nat \<Rightarrow> nat \<Rightarrow> nat \<Rightarrow> int" where
  "day_number y m d = int (days_before_year y + days_before_month y m + d)"

definition calendar_weekday :: "nat \<Rightarrow> nat \<Rightarrow> nat \<Rightarrow> int" where
  "calendar_weekday y m d = (day_number y m d - day_number 2024 6 10 + 1) mod 7"

definition valid_date :: "nat \<Rightarrow> nat \<Rightarrow> nat \<Rightarrow> bool" where
  "valid_date y m d = (1 \<le> m \<and> m \<le> 12 \<and> 1 \<le> d \<and> d \<le> days_in_month y m)"

section \<open>Auxiliary notions for the statements\<close>

text \<open>\<open>x + c\<close> needs no rounding (trivially so when \<open>x\<close> is not finite).\<close>

definition exact_sum :: "jsnum \<Rightarrow> rat \<Rightarrow> bool" where
  "exact_sum x c = (case x of Fin q \<Rightarrow> rnd64 (q + c) = Fin (q + c) | _ \<Rightarrow> True)"

text \<open>The number of multiples of \<open>n\<close> among \<open>0, \<dots>, y - 1\<close>.\<close>

definition multiples :: "int \<Rightarrow> nat \<Rightarrow> int" where
  "multiples n y = (int y + (n - 1)) div n"

text \<open>
  The day number, counted from 1 January 1970, that \<open>MakeDay\<close> gives to day \<open>d\<close> of month
  \<open>m\<close> (1 to 12) of year \<open>Y\<close>.
\<close>

definition day_of :: "int \<Rightarrow> nat \<Rightarrow> nat \<Rightarrow> int" where
  "day_of Y m d = DayFromYear Y + month_start (int m - 1) (InLeapYear Y) + int d - 1"

text \<open>
  The local time at which a calendar date begins, as a time value: the days counted on the
  calendar from 1 January 1970, in milliseconds.
\<close>

definition local_midnight :: "nat \<Rightarrow> nat \<Rightarrow> nat \<Rightarrow> int" where
  "local_midnight y m d = (day_number y m d - day_number 1970 1 1) * msPerDay"

text \<open>
  A zone keeps the local time \<open>t\<close> on its day when \<open>t\<close> is read with an offset of at most a
  day, and the offset in force at the instant so found is the same or larger by less than a
  day. The second part fails where the clocks of the zone skip the whole day that starts
  at \<open>t\<close>.
\<close>

definition keeps_local_day :: "zone \<Rightarrow> int \<Rightarrow> bool" where
  "keeps_local_day z t =
     (\<bar>tza_at_local z t\<bar> \<le> msPerDay
      \<and> tza_at_local z t \<le> tza_at_utc z (UTC z t)
      \<and> tza_at_utc z (UTC z t) < tza_at_local z t + msPerDay)"

text \<open>A zone with the same offset at all times.\<close>

definition fixed_zone :: "int \<Rightarrow> zone" where
  "fixed_zone c = \<lparr>tza_at_utc = (\<lambda>u. c), tza_at_local = (\<lambda>t. c)\<rparr>"

text \<open>
  The zone Pacific/Apia around the end of 2011. Samoa was ten hours behind UTC until the
  end of 29 December 2011 and fourteen hours ahead from then on, the instant
  2011-12-30T10:00Z (1325239200000): the local date 30 December 2011 did not occur. A local
  time of the skipped day is read with the offset before the change, as the standard has
  it; the first local time after the gap is 31 December, 00:00 (1325289600000).
\<close>

definition apia_2011 :: zone where
  "apia_2011 =
     \<lparr>tza_at_utc = (\<lambda>u. if u < 1325239200000 then - 36000000 else 50400000),
      tza_at_local = (\<lambda>t. if t < 1325289600000 then - 36000000 else 50400000)\<rparr>"

section \<open>Rounding\<close>

lemma pow2_pos: "0 < pow2 e"
  by (simp add: pow2_def)

lemma pow2_add: "pow2 (a + b) = pow2 a * pow2 b"
  by (simp add: pow2_def power_int_add)

lemma pow2_less_iff: "pow2 a < pow2 b \<longleftrightarrow> a < b"
proof
  assume less: "pow2 a < pow2 b"
  show "a < b"
  proof (rule ccontr)
    assume "\<not> a < b"
    then have "b \<le> a" by simp
    then have "pow2 b \<le> pow2 a"
      unfolding pow2_def by (intro power_int_increasing) auto
    with less show False by simp
  qed
next
  assume "a < b"
  then show "pow2 a < pow2 b"
    unfolding pow2_def by (intro power_int_strict_increasing) auto
qed

lemma pow2_le_iff: "pow2 a \<le> pow2 b \<longleftrightarrow> a \<le> b"
  using pow2_less_iff [of b a] by (auto simp: not_less [symmetric])

lemma pow2_nonneg_exp: "0 \<le> e \<Longrightarrow> pow2 e = 2 ^ nat e"
  by (simp add: pow2_def power_int_nonneg_exp)

lemma pow2_diff: "pow2 (a - b) = pow2 a / pow2 b"
  by (simp add: pow2_def power_int_diff)

lemma bitlen_rat_bounds:
  assumes "0 < (a::int)"
  shows "pow2 (bitlen a - 1) \<le> of_int a" and "of_int a < pow2 (bitlen a)"
proof -
  from bitlen_bounds [OF assms]
  have lo: "2 ^ nat (bitlen a - 1) \<le> a" and hi: "a < 2 ^ nat (bitlen a)"
    by auto
  have b1: "1 \<le> bitlen a"
    using assms by (auto simp: bitlen_alt_def)
  have "pow2 (bitlen a - 1) = of_int (2 ^ nat (bitlen a - 1))"
    using b1 by (simp add: pow2_nonneg_exp)
  also have "\<dots> \<le> of_int a"
    using lo by (simp only: of_int_le_iff)
  finally show "pow2 (bitlen a - 1) \<le> of_int a" .
  have "(of_int a :: rat) < of_int (2 ^ nat (bitlen a))"
    using hi by (simp only: of_int_less_iff)
  also have "\<dots> = pow2 (bitlen a)"
    using b1 by (simp add: pow2_nonneg_exp)
  finally show "of_int a < pow2 (bitlen a)" .
qed

lemma ilog2_bounds:
  assumes "0 < q"
  shows "pow2 (ilog2 q) \<le> q \<and> q < pow2 (ilog2 q + 1)"
proof -
  obtain a b where ab: "quotient_of q = (a, b)"
    by (cases "quotient_of q")
  then have b: "0 < b" and q: "q = of_int a / of_int b"
    by (simp_all add: quotient_of_denom_pos quotient_of_div)
  from assms q b have a: "0 < a"
    by (simp add: zero_less_divide_iff)
  define c where "c = bitlen a - bitlen b"
  note A = bitlen_rat_bounds [OF a] and B = bitlen_rat_bounds [OF b]
  have "q < pow2 (bitlen a) / pow2 (bitlen b - 1)"
    unfolding q using A B a b pow2_pos [of "bitlen b - 1"]
    by (intro frac_less) auto
  then have up: "q < pow2 (c + 1)"
    by (simp add: c_def pow2_diff [symmetric] algebra_simps)
  have "pow2 (bitlen a - 1) / pow2 (bitlen b) < q"
    unfolding q using A B a b pow2_pos [of "bitlen a - 1"]
    by (intro frac_less2) auto
  then have lo: "pow2 (c - 1) < q"
    by (simp add: c_def pow2_diff [symmetric] algebra_simps)
  show ?thesis
  proof (cases "pow2 c \<le> q")
    case True
    then show ?thesis using up by (simp add: ilog2_def ab c_def)
  next
    case False
    then show ?thesis using lo by (simp add: ilog2_def ab c_def)
  qed
qed

lemma ilog2_unique:
  assumes "pow2 e \<le> q" and "q < pow2 (e + 1)"
  shows "ilog2 q = e"
proof -
  have "0 < q"
    using assms(1) pow2_pos [of e] by simp
  from ilog2_bounds [OF this]
  have lo: "pow2 (ilog2 q) \<le> q" and hi: "q < pow2 (ilog2 q + 1)"
    by auto
  have "pow2 e < pow2 (ilog2 q + 1)"
    using assms(1) hi by simp
  moreover have "pow2 (ilog2 q) < pow2 (e + 1)"
    using lo assms(2) by simp
  ultimately show ?thesis
    by (simp add: pow2_less_iff)
qed

lemma round_half_even_of_int: "round_half_even (of_int m) = m"
  by (simp add: round_half_even_def)

lemma round_half_even_bounds: "\<lfloor>q\<rfloor> \<le> round_half_even q \<and> round_half_even q \<le> \<lceil>q\<rceil>"
proof (cases "q = of_int \<lfloor>q\<rfloor>")
  case True
  then show ?thesis
    by (metis ceiling_of_int order_refl round_half_even_of_int floor_of_int)
next
  case False
  then have "\<lceil>q\<rceil> = \<lfloor>q\<rfloor> + 1"
    by (metis ceiling_altdef)
  then show ?thesis
    by (simp add: round_half_even_def Let_def)
qed

lemma round_half_even_abs_le:
  assumes "\<bar>q\<bar> \<le> of_int N"
  shows "\<bar>round_half_even q\<bar> \<le> N"
proof -
  have "- N \<le> \<lfloor>q\<rfloor>"
    using assms by (simp add: le_floor_iff abs_le_iff)
  moreover have "\<lceil>q\<rceil> \<le> N"
    using assms by (simp add: ceiling_le_iff abs_le_iff)
  ultimately show ?thesis
    using round_half_even_bounds [of q] by linarith
qed

text \<open>Rounding a value whose binade is known.\<close>

lemma rnd64_normal:
  assumes lo: "pow2 e \<le> \<bar>q\<bar>" and hi: "\<bar>q\<bar> < pow2 (e + 1)"
    and e: "- 1022 \<le> e" "e \<le> 1022"
  shows "rnd64 q = Fin (of_int (round_half_even (q / pow2 (e - 52))) * pow2 (e - 52))"
proof -
  have q0: "q \<noteq> 0"
    using lo pow2_pos [of e] by auto
  have il: "ilog2 \<bar>q\<bar> = e"
    using lo hi by (rule ilog2_unique)
  let ?u = "pow2 (e - 52)"
  have "\<bar>q / ?u\<bar> = \<bar>q\<bar> / ?u"
    using pow2_pos [of "e - 52"] by simp
  also have "\<dots> \<le> pow2 (e + 1) / ?u"
    using hi pow2_pos [of "e - 52"] by (simp add: divide_right_mono)
  also have "\<dots> = pow2 53"
    by (simp add: pow2_diff [symmetric])
  also have "\<dots> = of_int (2 ^ 53)"
    by (simp add: pow2_def)
  finally have "\<bar>round_half_even (q / ?u)\<bar> \<le> 2 ^ 53"
    by (rule round_half_even_abs_le)
  then have "\<bar>of_int (round_half_even (q / ?u)) :: rat\<bar> \<le> of_int (2 ^ 53)"
    by (simp only: of_int_abs [symmetric] of_int_le_iff)
  then have "\<bar>of_int (round_half_even (q / ?u)) * ?u\<bar> \<le> of_int (2 ^ 53) * ?u"
    using pow2_pos [of "e - 52"] by (simp add: abs_mult mult_right_mono)
  also have "of_int (2 ^ 53) * ?u = pow2 (e + 1)"
  proof -
    have a: "(of_int (2 ^ 53) :: rat) = pow2 53"
      by (simp add: pow2_def)
    have b: "53 + (e - 52) = e + 1"
      by simp
    show ?thesis
      unfolding a pow2_add [symmetric] b ..
  qed
  also have "\<dots> < pow2 1024"
    using e by (simp add: pow2_less_iff)
  finally have "\<not> pow2 1024 \<le> \<bar>of_int (round_half_even (q / ?u)) * ?u\<bar>"
    by simp
  then show ?thesis
    using q0 il e by (simp add: rnd64_def Let_def)
qed

lemma rnd64_dyadic:
  assumes n: "n \<noteq> 0" "\<bar>n\<bar> < 2 ^ 53" and k: "k \<le> 1022"
  shows "rnd64 (of_int n / 2 ^ k) = Fin (of_int n / 2 ^ k)"
proof -
  let ?q = "of_int n / 2 ^ k :: rat"
  have q0: "0 < \<bar>?q\<bar>"
    using n by simp
  define e where "e = ilog2 \<bar>?q\<bar>"
  from ilog2_bounds [OF q0]
  have lo: "pow2 e \<le> \<bar>?q\<bar>" and hi: "\<bar>?q\<bar> < pow2 (e + 1)"
    by (simp_all add: e_def)
  have pk: "(2 ^ k :: rat) = pow2 (int k)"
    by (simp add: pow2_def)
  have "pow2 (- int k) \<le> \<bar>?q\<bar>"
  proof -
    have "(1 :: rat) \<le> \<bar>of_int n\<bar>"
      using n(1) by (simp flip: of_int_abs add: of_int_1_le_iff)
    then have "1 / 2 ^ k \<le> \<bar>of_int n :: rat\<bar> / 2 ^ k"
      by (simp add: divide_right_mono)
    then show ?thesis
      by (simp add: pow2_def power_int_minus_divide)
  qed
  with hi have "pow2 (- int k) < pow2 (e + 1)"
    by simp
  then have e_lo: "- int k \<le> e"
    by (simp add: pow2_less_iff)
  have "\<bar>?q\<bar> < pow2 (53 - int k)"
  proof -
    have "\<bar>of_int n :: rat\<bar> < of_int (2 ^ 53)"
      using n(2) by (simp only: of_int_abs [symmetric] of_int_less_iff)
    then have "\<bar>of_int n :: rat\<bar> / 2 ^ k < 2 ^ 53 / 2 ^ k"
      by (simp add: divide_strict_right_mono)
    moreover have "(2 ^ 53 / 2 ^ k :: rat) = pow2 (53 - int k)"
      by (simp add: pow2_diff pk) (simp add: pow2_def)
    ultimately show ?thesis
      by simp
  qed
  with lo have "pow2 e < pow2 (53 - int k)"
    by simp
  then have e_hi: "e \<le> 52 - int k"
    by (simp add: pow2_less_iff)
  define j where "j = nat (52 - int k - e)"
  have j: "int j = 52 - int k - e"
    using e_hi by (simp add: j_def)
  have scale: "?q / pow2 (e - 52) = of_int (n * 2 ^ j)"
  proof -
    have "e - 52 = - (int k + int j)"
      using j by simp
    then have "pow2 (e - 52) = 1 / (2 ^ k * 2 ^ j)"
      by (simp add: pow2_def power_int_minus_divide power_add flip: of_nat_add)
    then show ?thesis
      by simp
  qed
  have "rnd64 ?q = Fin (of_int (round_half_even (?q / pow2 (e - 52))) * pow2 (e - 52))"
    using lo hi e_lo e_hi k by (intro rnd64_normal) auto
  also have "of_int (round_half_even (?q / pow2 (e - 52))) * pow2 (e - 52) = ?q"
    unfolding scale round_half_even_of_int
    using scale pow2_pos [of "e - 52"] by (simp add: field_simps)
  finally show ?thesis .
qed

lemma rnd64_of_int: "\<bar>n\<bar> < 2 ^ 53 \<Longrightarrow> rnd64 (of_int n) = Fin (of_int n)"
  using rnd64_dyadic [of n 0] by (cases "n = 0") (simp_all add: rnd64_def)

lemma rnd64_of_nat: "n < 2 ^ 53 \<Longrightarrow> rnd64 (of_nat n) = Fin (of_nat n)"
  using rnd64_of_int [of "int n"] by simp

lemma rnd64_numeral:
  "(numeral k :: int) < 9007199254740992 \<Longrightarrow> rnd64 (numeral k) = Fin (numeral k)"
  using rnd64_of_int [of "numeral k"] by simp

lemma rnd64_0: "rnd64 0 = Fin 0"
  by (simp add: rnd64_def)

lemma rnd64_1: "rnd64 1 = Fin 1"
  using rnd64_of_int [of 1] by simp

lemma rnd64_half_int:
  assumes "\<bar>n\<bar> < 2 ^ 53"
  shows "rnd64 (of_int n / 2) = Fin (of_int n / 2)"
  using rnd64_dyadic [of n 1] assms by (cases "n = 0") (simp_all add: rnd64_0)

lemma floor_rat_numeral: "\<lfloor>numeral a / numeral b :: rat\<rfloor> = numeral a div numeral b"
  using floor_divide_of_int_eq [of "numeral a" "numeral b", where ?'a = rat] by simp

lemma rnd64_not_NaN: "rnd64 q \<noteq> NaN"
  by (simp add: rnd64_def Let_def)

lemma num_lit_int:
  "num_lit 0 = Fin 0" "num_lit 1 = Fin 1" "num_lit 5 = Fin 5" "num_lit 8 = Fin 8"
  "num_lit 17 = Fin 17" "num_lit 50 = Fin 50" "num_lit 99 = Fin 99" "num_lit 149 = Fin 149"
  by (simp_all add: num_lit_def rnd64_0 rnd64_1 rnd64_numeral)

lemma num_lit_halves:
  "num_lit (5 / 2) = Fin (5 / 2)" "num_lit (3 / 2) = Fin (3 / 2)" "num_lit (1 / 2) = Fin (1 / 2)"
  using rnd64_dyadic [of 5 1] rnd64_dyadic [of 3 1] rnd64_dyadic [of 1 1]
  by (simp_all add: num_lit_def)

lemma num_lit_12: "num_lit (6 / 5) = Fin (5404319552844595 / 4503599627370496)"
  unfolding num_lit_def
  by (subst rnd64_normal [where e = 0])
    (simp_all add: pow2_def round_half_even_def Let_def floor_rat_numeral)

lemma num_lit_08: "num_lit (4 / 5) = Fin (3602879701896397 / 4503599627370496)"
  unfolding num_lit_def
  by (subst rnd64_normal [where e = "- 1"])
    (simp_all add: pow2_def round_half_even_def Let_def floor_rat_numeral)

lemmas num_lit_simps = num_lit_int num_lit_halves num_lit_12 num_lit_08

text \<open>Results that stay finite, and results that are not NaN.\<close>

lemma rnd64_finite:
  assumes q: "\<bar>q\<bar> < pow2 k" and k: "- 1021 \<le> k" "k \<le> 1023"
  shows "\<exists>v. rnd64 q = Fin v \<and> \<bar>v\<bar> \<le> pow2 k"
proof (cases "q = 0")
  case True
  then show ?thesis
    using pow2_pos [of k] by (simp add: rnd64_def)
next
  case False
  define e where "e = max (ilog2 \<bar>q\<bar>) (- 1022)"
  let ?u = "pow2 (e - 52)"
  define v where "v = of_int (round_half_even (q / ?u)) * ?u"
  from False have q0: "0 < \<bar>q\<bar>"
    by simp
  from ilog2_bounds [OF q0]
  have lo: "pow2 (ilog2 \<bar>q\<bar>) \<le> \<bar>q\<bar>" and hi: "\<bar>q\<bar> < pow2 (ilog2 \<bar>q\<bar> + 1)"
    by auto
  from lo q have "pow2 (ilog2 \<bar>q\<bar>) < pow2 k"
    by simp
  then have "ilog2 \<bar>q\<bar> < k"
    by (simp add: pow2_less_iff)
  with k have ek: "e + 1 \<le> k"
    by (simp add: e_def)
  have "ilog2 \<bar>q\<bar> + 1 \<le> e + 1"
    by (simp add: e_def)
  then have "pow2 (ilog2 \<bar>q\<bar> + 1) \<le> pow2 (e + 1)"
    by (simp only: pow2_le_iff)
  with hi have hi': "\<bar>q\<bar> < pow2 (e + 1)"
    by simp
  have "\<bar>q / ?u\<bar> = \<bar>q\<bar> / ?u"
    using pow2_pos [of "e - 52"] by simp
  also have "\<dots> \<le> pow2 (e + 1) / ?u"
    using hi' pow2_pos [of "e - 52"] by (simp add: divide_right_mono)
  also have "\<dots> = pow2 53"
    by (simp add: pow2_diff [symmetric])
  also have "\<dots> = of_int (2 ^ 53)"
    by (simp add: pow2_def)
  finally have "\<bar>round_half_even (q / ?u)\<bar> \<le> 2 ^ 53"
    by (rule round_half_even_abs_le)
  then have "\<bar>of_int (round_half_even (q / ?u)) :: rat\<bar> \<le> of_int (2 ^ 53)"
    by (simp only: of_int_abs [symmetric] of_int_le_iff)
  then have "\<bar>v\<bar> \<le> of_int (2 ^ 53) * ?u"
    using pow2_pos [of "e - 52"] by (simp add: v_def abs_mult mult_right_mono)
  also have "of_int (2 ^ 53) * ?u = pow2 (e + 1)"
  proof -
    have a: "(of_int (2 ^ 53) :: rat) = pow2 53"
      by (simp add: pow2_def)
    have b: "53 + (e - 52) = e + 1"
      by simp
    show ?thesis
      unfolding a pow2_add [symmetric] b ..
  qed
  also have "\<dots> \<le> pow2 k"
    using ek by (simp only: pow2_le_iff)
  finally have vk: "\<bar>v\<bar> \<le> pow2 k" .
  also have "pow2 k < pow2 1024"
    using k by (simp add: pow2_less_iff)
  finally have "\<not> pow2 1024 \<le> \<bar>v\<bar>"
    by simp
  then have "rnd64 q = Fin v"
    using False by (simp add: rnd64_def Let_def e_def [symmetric] v_def [symmetric])
  with vk show ?thesis
    by simp
qed

lemma fmul_not_NaN: "x \<noteq> NaN \<Longrightarrow> r \<noteq> 0 \<Longrightarrow> fmul x (Fin r) \<noteq> NaN"
  by (cases x) (simp_all add: rnd64_not_NaN)

lemma fadd_not_NaN: "x \<noteq> NaN \<Longrightarrow> fadd x (Fin c) \<noteq> NaN"
  by (cases x) (simp_all add: rnd64_not_NaN)

lemma fmul_finite:
  assumes "\<bar>a\<bar> \<le> pow2 k" "\<bar>b\<bar> \<le> 4" "- 1024 \<le> k" "k \<le> 1020"
  shows "\<exists>v. fmul (Fin a) (Fin b) = Fin v \<and> \<bar>v\<bar> \<le> pow2 (k + 3)"
proof -
  have "\<bar>a * b\<bar> \<le> pow2 k * 4"
    unfolding abs_mult using assms(1,2) by (intro mult_mono) auto
  also have "\<dots> = pow2 (k + 2)"
    by (simp add: pow2_add) (simp add: pow2_def)
  also have "\<dots> < pow2 (k + 3)"
    by (simp add: pow2_less_iff)
  finally show ?thesis
    using assms(3,4) by (simp add: rnd64_finite)
qed

lemma fadd_finite:
  assumes "\<bar>a\<bar> \<le> pow2 k" "\<bar>c\<bar> \<le> pow2 k" "- 1023 \<le> k" "k \<le> 1021"
  shows "\<exists>v. fadd (Fin a) (Fin c) = Fin v \<and> \<bar>v\<bar> \<le> pow2 (k + 2)"
proof -
  have "\<bar>a + c\<bar> \<le> pow2 k + pow2 k"
    using assms(1,2) by linarith
  also have "\<dots> = pow2 (k + 1)"
    by (simp add: pow2_add) (simp add: pow2_def)
  also have "\<dots> < pow2 (k + 2)"
    by (simp add: pow2_less_iff)
  finally show ?thesis
    using assms(3,4) by (simp add: rnd64_finite)
qed

lemma small_le_pow2: "6 \<le> k \<Longrightarrow> 50 \<le> pow2 k" "7 \<le> k \<Longrightarrow> 99 \<le> pow2 k"
proof -
  have "(50::rat) \<le> pow2 6" "(99::rat) \<le> pow2 7"
    by (simp_all add: pow2_def)
  moreover have "6 \<le> k \<Longrightarrow> pow2 6 \<le> pow2 k" "7 \<le> k \<Longrightarrow> pow2 7 \<le> pow2 k"
    by (simp_all only: pow2_le_iff)
  ultimately show "6 \<le> k \<Longrightarrow> 50 \<le> pow2 k" "7 \<le> k \<Longrightarrow> 99 \<le> pow2 k"
    by linarith+
qed

section \<open>The quote estimator: properties\<close>

lemma multipliers_own:
  "multipliers ''residential'' = Num (num_lit 1)"
  "multipliers ''commercial'' = Num (num_lit (12 / 10))"
  "multipliers ''abandoned'' = Num (num_lit (15 / 10))"
  "multipliers ''construction'' = Num (num_lit (8 / 10))"
  by (simp_all add: multipliers_def own_multipliers_def)

lemma multipliers_cases:
  "multipliers ty = Undefined \<or> multipliers ty = Obj \<or> multipliers ty = Num (num_lit 1)
   \<or> multipliers ty = Num (num_lit (12 / 10)) \<or> multipliers ty = Num (num_lit (15 / 10))
   \<or> multipliers ty = Num (num_lit (8 / 10))"
  by (simp add: multipliers_def own_multipliers_def)

lemma multipliers_Obj_iff: "multipliers ty = Obj \<longleftrightarrow> ty \<in> set Object_prototype_keys"
  by (simp add: multipliers_def own_multipliers_def Object_prototype_keys_def)

lemma quote_1000_commercial: "calculateQuote (Fin 1000) ''commercial'' False False = Fin 3000"
proof -
  have "rnd64 (2500 * (5404319552844595 / 4503599627370496)) = Fin 3000"
    by (subst rnd64_normal [where e = 11])
      (simp_all add: pow2_def round_half_even_def Let_def floor_rat_numeral)
  then show ?thesis
    by (simp add: calculateQuote_def multipliers_own num_lit_simps rnd64_numeral)
qed

text \<open>
  Claim C1. For every size and each property type of the enumerated set, the estimate
  without flags is \<open>size * 2.5 * multiplier\<close>, evaluated left to right in Number arithmetic,
  with the multipliers 1.0 (residential), 1.2 (commercial), 1.5 (abandoned) and 0.8
  (construction) and the base rate 2.5; for the size 1000 and a commercial property it is
  3000.
\<close>

theorem calculateQuote_base_amount:
  "calculateQuote sz ''residential'' False False
     = fmul (fmul sz (num_lit (25 / 10))) (num_lit 1)
   \<and> calculateQuote sz ''commercial'' False False
     = fmul (fmul sz (num_lit (25 / 10))) (num_lit (12 / 10))
   \<and> calculateQuote sz ''abandoned'' False False
     = fmul (fmul sz (num_lit (25 / 10))) (num_lit (15 / 10))
   \<and> calculateQuote sz ''construction'' False False
     = fmul (fmul sz (num_lit (25 / 10))) (num_lit (8 / 10))
   \<and> calculateQuote (Fin 1000) ''commercial'' False False = Fin 3000"
proof -
  have "calculateQuote sz ''residential'' False False
      = fmul (fmul sz (num_lit (25 / 10))) (num_lit 1)"
    "calculateQuote sz ''commercial'' False False
      = fmul (fmul sz (num_lit (25 / 10))) (num_lit (12 / 10))"
    "calculateQuote sz ''abandoned'' False False
      = fmul (fmul sz (num_lit (25 / 10))) (num_lit (15 / 10))"
    "calculateQuote sz ''construction'' False False
      = fmul (fmul sz (num_lit (25 / 10))) (num_lit (8 / 10))"
    by (simp_all add: calculateQuote_def multipliers_own num_lit_simps)
  with quote_1000_commercial show ?thesis
    by blast
qed

text \<open>Whole amounts below \<open>2^52\<close> are added without rounding.\<close>

lemma exact_sum_int:
  assumes "\<bar>n\<bar> < 2 ^ 52" "\<bar>c\<bar> < 2 ^ 52"
  shows "exact_sum (Fin (of_int n)) (of_int c)"
proof -
  have "\<bar>n + c\<bar> < 2 ^ 53"
    using assms by simp
  then have "rnd64 (of_int (n + c)) = Fin (of_int (n + c))"
    by (rule rnd64_of_int)
  then show ?thesis
    by (simp add: exact_sum_def)
qed

lemma quote_500: "calculateQuote (Fin 500) ''abandoned'' True True = Fin 2024"
  using rnd64_dyadic [of 3750 1]
  by (simp add: calculateQuote_def multipliers_own num_lit_simps rnd64_numeral)

text \<open>
  Claim C4, amended. For every size and property type the hazard flag adds 50 and the lawn
  flag adds 99, each by one Number addition, the hazard fee first: with both flags the
  estimate is \<open>(base + 50) + 99\<close>, where \<open>base\<close> is the estimate without flags. This equals
  \<open>base + 149\<close> whenever \<open>base + 50\<close> needs no rounding. It needs none whenever \<open>base\<close> is a
  whole number of magnitude below \<open>2^52\<close>, and the estimate with both flags is then that
  whole number plus 149. \<open>estimate(500, "abandoned", true, true)\<close> is 2024.
\<close>

theorem calculateQuote_surcharges:
  "calculateQuote sz ty True False = fadd (calculateQuote sz ty False False) (num_lit 50)
   \<and> calculateQuote sz ty False True = fadd (calculateQuote sz ty False False) (num_lit 99)
   \<and> calculateQuote sz ty True True
       = fadd (fadd (calculateQuote sz ty False False) (num_lit 50)) (num_lit 99)
   \<and> (exact_sum (calculateQuote sz ty False False) 50 \<longrightarrow>
        calculateQuote sz ty True True = fadd (calculateQuote sz ty False False) (num_lit 149))
   \<and> (calculateQuote sz ty False False = Fin (of_int n) \<and> \<bar>n\<bar> < 2 ^ 52 \<longrightarrow>
        exact_sum (calculateQuote sz ty False False) 50
        \<and> calculateQuote sz ty True True = Fin (of_int (n + 149)))
   \<and> calculateQuote (Fin 500) ''abandoned'' True True = Fin 2024"
proof -
  let ?x = "calculateQuote sz ty False False"
  have 1: "calculateQuote sz ty True False = fadd ?x (num_lit 50)"
    and 2: "calculateQuote sz ty False True = fadd ?x (num_lit 99)"
    and 3: "calculateQuote sz ty True True = fadd (fadd ?x (num_lit 50)) (num_lit 99)"
    by (simp_all add: calculateQuote_def Let_def)
  have 4: "fadd (fadd ?x (num_lit 50)) (num_lit 99) = fadd ?x (num_lit 149)"
    if "exact_sum ?x 50"
    using that by (cases ?x) (simp_all add: exact_sum_def num_lit_simps add.commute)
  have 5: "exact_sum ?x 50 \<and> fadd (fadd ?x (num_lit 50)) (num_lit 99) = Fin (of_int (n + 149))"
    if x: "?x = Fin (of_int n)" and n: "\<bar>n\<bar> < 2 ^ 52"
  proof -
    have e: "exact_sum (Fin (of_int n)) 50"
      using exact_sum_int [OF n, of 50] by simp
    have "\<bar>n + 149\<bar> < 2 ^ 53"
      using n by simp
    then have "rnd64 (of_int (n + 149)) = Fin (of_int (n + 149))"
      by (rule rnd64_of_int)
    then have "fadd (Fin (of_int n)) (num_lit 149) = Fin (of_int (n + 149))"
      by (simp add: num_lit_simps)
    with e 4 show ?thesis
      unfolding x by simp
  qed
  show ?thesis
    using 1 2 3 4 5 quote_500 by simp
qed

theorem calculateQuote_surcharges_witness:
  "exact_sum (calculateQuote (Fin 500) ''abandoned'' False False) 50
   \<and> calculateQuote (Fin 500) ''abandoned'' False False = Fin (of_int 1875)
   \<and> \<bar>1875 :: int\<bar> < 2 ^ 52
   \<and> calculateQuote (Fin 500) ''abandoned'' True True
       = fadd (calculateQuote (Fin 500) ''abandoned'' False False) (num_lit 149)
   \<and> calculateQuote (Fin 500) ''abandoned'' True True = Fin (of_int (1875 + 149))"
proof -
  have v: "calculateQuote (Fin 500) ''abandoned'' False False = Fin (of_int 1875)"
    using rnd64_dyadic [of 3750 1]
    by (simp add: calculateQuote_def multipliers_own num_lit_simps rnd64_numeral)
  have e: "exact_sum (calculateQuote (Fin 500) ''abandoned'' False False) 50"
    unfolding v by (simp add: exact_sum_def rnd64_numeral)
  have b: "\<bar>1875 :: int\<bar> < 2 ^ 52"
    by simp
  from v e b calculateQuote_surcharges [of "Fin 500" "''abandoned''" 1875] show ?thesis
    by blast
qed

lemma rnd64_binade_55:
  "rnd64 45035996273704960 = Fin 45035996273704960"
  "rnd64 45035996273705010 = Fin 45035996273705008"
  "rnd64 45035996273705107 = Fin 45035996273705104"
  "rnd64 45035996273705109 = Fin 45035996273705112"
  by (subst rnd64_normal [where e = 55];
      simp add: pow2_def round_half_even_def Let_def floor_rat_numeral)+

lemma quote_two_pow_54:
  "calculateQuote (Fin 18014398509481984) ''residential'' False False = Fin 45035996273704960"
  by (simp add: calculateQuote_def multipliers_own num_lit_simps rnd64_binade_55)

text \<open>
  The identity \<open>estimate(size, type, true, true) = estimate(size, type, false, false) + 149\<close>
  of claim C4 fails for the size \<open>2^54\<close>: the flag-free estimate is \<open>5 * 2^53\<close>, where
  neighbouring Numbers are 8 apart, so adding 50 gives \<open>+48\<close>, adding 99 to that gives \<open>+144\<close>,
  while adding 149 at once gives \<open>+152\<close>.
\<close>

theorem calculateQuote_surcharges_counterexample:
  "calculateQuote (Fin 18014398509481984) ''residential'' True True
     = Fin 45035996273705104
   \<and> fadd (calculateQuote (Fin 18014398509481984) ''residential'' False False) (num_lit 149)
     = Fin 45035996273705112
   \<and> calculateQuote (Fin 18014398509481984) ''residential'' True True
     \<noteq> fadd (calculateQuote (Fin 18014398509481984) ''residential'' False False) (num_lit 149)"
proof -
  have 3: "calculateQuote (Fin 18014398509481984) ''residential'' True True
       = fadd (fadd (calculateQuote (Fin 18014398509481984) ''residential'' False False) (num_lit 50)) (num_lit 99)"
    by (simp add: calculateQuote_def Let_def)
  show ?thesis
    unfolding 3 quote_two_pow_54 by (simp add: num_lit_simps rnd64_binade_55)
qed

text \<open>
  The same at an everyday size: for \<open>"0.11"\<close> and a commercial property the two sides are
  \<open>149.32999999999998\<close> and \<open>149.33\<close>.
\<close>

lemma Number_011: "Number ''0.11'' = Fin (7926335344172073 / 72057594037927936)"
proof -
  have "dec_value ''0.11'' = Some (11 / 100)"
    by (simp add: dec_value_def is_digit_def digit_of_def digits_val_def exponent_part_def)
  then have "Number ''0.11'' = rnd64 (11 / 100)"
    by (simp add: Number_def trim_def is_ws_def StrNumericLiteral_def StrDecimalLiteral_def
        unsigned_literal_def)
  also have "\<dots> = Fin (7926335344172073 / 72057594037927936)"
    by (subst rnd64_normal [where e = "- 4"])
      (simp_all add: pow2_def round_half_even_def Let_def floor_rat_numeral)
  finally show ?thesis .
qed

lemma surcharge_rounding_small_size:
  "calculateQuote (Fin (7926335344172073 / 72057594037927936)) ''commercial'' True True
     = Fin (2627041142012641 / 17592186044416)"
  "fadd (calculateQuote (Fin (7926335344172073 / 72057594037927936)) ''commercial'' False False)
     (num_lit 149) = Fin (5254082284025283 / 35184372088832)"
proof -
  have a: "rnd64 (7926335344172073 / 72057594037927936 * (5 / 2))
      = Fin (2476979795053773 / 9007199254740992)"
    by (subst rnd64_normal [where e = "- 2"])
      (simp_all add: pow2_def round_half_even_def Let_def floor_rat_numeral)
  have b: "rnd64 (2476979795053773 / 9007199254740992 * (5404319552844595 / 4503599627370496))
      = Fin (5944751508129055 / 18014398509481984)"
    by (subst rnd64_normal [where e = "- 2"])
      (simp_all add: pow2_def round_half_even_def Let_def floor_rat_numeral)
  have c: "rnd64 (5944751508129055 / 18014398509481984 + 50)
      = Fin (3541658894461829 / 70368744177664)"
    by (subst rnd64_normal [where e = 5])
      (simp_all add: pow2_def round_half_even_def Let_def floor_rat_numeral)
  have d: "rnd64 (3541658894461829 / 70368744177664 + 99)
      = Fin (2627041142012641 / 17592186044416)"
    by (subst rnd64_normal [where e = 7])
      (simp_all add: pow2_def round_half_even_def Let_def floor_rat_numeral)
  have e: "rnd64 (5944751508129055 / 18014398509481984 + 149)
      = Fin (5254082284025283 / 35184372088832)"
    by (subst rnd64_normal [where e = 7])
      (simp_all add: pow2_def round_half_even_def Let_def floor_rat_numeral)
  have base: "calculateQuote (Fin (7926335344172073 / 72057594037927936)) ''commercial'' False False
      = Fin (5944751508129055 / 18014398509481984)"
    using a b by (simp add: calculateQuote_def multipliers_own num_lit_simps)
  have both: "calculateQuote (Fin (7926335344172073 / 72057594037927936)) ''commercial'' True True
      = fadd (fadd (calculateQuote (Fin (7926335344172073 / 72057594037927936)) ''commercial'' False False)
          (num_lit 50)) (num_lit 99)"
    by (simp add: calculateQuote_def Let_def)
  show "calculateQuote (Fin (7926335344172073 / 72057594037927936)) ''commercial'' True True
     = Fin (2627041142012641 / 17592186044416)"
    unfolding both base using c d by (simp add: num_lit_simps)
  show "fadd (calculateQuote (Fin (7926335344172073 / 72057594037927936)) ''commercial'' False False)
     (num_lit 149) = Fin (5254082284025283 / 35184372088832)"
    unfolding base using e by (simp add: num_lit_simps)
qed

text \<open>
  For a property type that does not name a member of \<open>Object.prototype\<close> the multiplier
  is one of the four of the table or 1.0, and the estimate is a Number other than NaN for
  every size other than NaN, a finite one for every size of magnitude up to \<open>2^1000\<close>,
  and 149 for the size 0 with both flags.
\<close>

lemma chosen_multiplier:
  assumes "ty \<notin> set Object_prototype_keys"
  obtains r where "1 / 2 \<le> r" "r \<le> 2"
    "ToNumber (if truthy (multipliers ty) then multipliers ty else Num (num_lit 1)) = Fin r"
proof -
  have "multipliers ty \<noteq> Obj"
    using assms by (simp add: multipliers_Obj_iff)
  with multipliers_cases [of ty] that [of 1]
    that [of "5404319552844595 / 4503599627370496"] that [of "3 / 2"]
    that [of "3602879701896397 / 4503599627370496"]
  show ?thesis
    by (auto simp: num_lit_simps)
qed

lemma quote_zero:
  assumes "ty \<notin> set Object_prototype_keys"
  shows "calculateQuote (Fin 0) ty True True = Fin 149"
proof -
  from assms obtain r where
    "ToNumber (if truthy (multipliers ty) then multipliers ty else Num (num_lit 1)) = Fin r"
    by (rule chosen_multiplier)
  then show ?thesis
    by (simp add: calculateQuote_def Let_def num_lit_simps rnd64_0 rnd64_numeral)
qed

lemma quote_not_NaN:
  assumes "ty \<notin> set Object_prototype_keys" "sz \<noteq> NaN"
  shows "calculateQuote sz ty hasHazard hasLawn \<noteq> NaN"
proof -
  from assms(1) obtain r where r: "1 / 2 \<le> r"
    "ToNumber (if truthy (multipliers ty) then multipliers ty else Num (num_lit 1)) = Fin r"
    by (rule chosen_multiplier)
  have "fmul (fmul sz (Fin (5 / 2))) (Fin r) \<noteq> NaN"
    using assms(2) r(1) by (intro fmul_not_NaN) auto
  then show ?thesis
    by (simp add: calculateQuote_def Let_def num_lit_simps r(2) fadd_not_NaN)
qed

lemma quote_finite:
  assumes "ty \<notin> set Object_prototype_keys" "\<bar>q\<bar> \<le> pow2 1000"
  shows "\<exists>v. calculateQuote (Fin q) ty hasHazard hasLawn = Fin v"
proof -
  from assms(1) obtain r where r: "1 / 2 \<le> r" "r \<le> 2"
    "ToNumber (if truthy (multipliers ty) then multipliers ty else Num (num_lit 1)) = Fin r"
    by (rule chosen_multiplier)
  obtain v1 where v1: "fmul (Fin q) (Fin (5 / 2)) = Fin v1" "\<bar>v1\<bar> \<le> pow2 1003"
    using fmul_finite [OF assms(2), of "5 / 2"] by auto
  obtain v2 where v2: "fmul (Fin v1) (Fin r) = Fin v2" "\<bar>v2\<bar> \<le> pow2 1006"
    using fmul_finite [OF v1(2), of r] r(1,2) by auto
  obtain v3 where v3: "fadd (Fin v2) (Fin 50) = Fin v3" "\<bar>v3\<bar> \<le> pow2 1008"
    using fadd_finite [OF v2(2), of 50] small_le_pow2(1) [of 1006] by auto
  obtain v4 where v4: "fadd (Fin v2) (Fin 99) = Fin v4"
    using fadd_finite [OF v2(2), of 99] small_le_pow2(2) [of 1006] by auto
  obtain v5 where v5: "fadd (Fin v3) (Fin 99) = Fin v5"
    using fadd_finite [OF v3(2), of 99] small_le_pow2(2) [of 1008] by auto
  show ?thesis
    by (simp add: calculateQuote_def Let_def num_lit_simps r(3) v1 v2 v3 v4 v5
        del: fmul.simps fadd.simps)
qed

text \<open>
  Claim C9 at the size 0 and the property type \<open>"toString"\<close>, with both flags: the lookup
  in the multiplier table returns the method inherited from \<open>Object.prototype\<close>, which is
  truthy, so the fallback to 1.0 is not taken, the product is NaN and so is the estimate,
  where the claim says 149. With the multiplier 1.0 the same steps give 149.
\<close>

theorem calculateQuote_inherited_key_not_numeric:
  "calculateQuote (Fin 0) ''toString'' True True = NaN
   \<and> calculateQuote (Fin 0) ''toString'' True True \<noteq> Fin 149
   \<and> fadd (fadd (fmul (fmul (Fin 0) (num_lit (25 / 10))) (num_lit 1)) (num_lit 50)) (num_lit 99)
     = Fin 149"
  by (simp add: calculateQuote_def multipliers_def own_multipliers_def Object_prototype_keys_def
      num_lit_simps rnd64_0 rnd64_numeral)

text \<open>
  Claim C6 at a property type outside the enumerated set for which the code does not fall
  back to 1.0: \<open>"toString"\<close> names a method inherited from \<open>Object.prototype\<close>, the lookup
  returns that function, which is truthy, and the product is NaN where the claim says 250.
\<close>

theorem calculateQuote_inherited_key:
  "calculateQuote (Fin 100) ''toString'' False False = NaN
   \<and> fmul (fmul (Fin 100) (num_lit (25 / 10))) (num_lit 1) = Fin 250"
  by (simp add: calculateQuote_def multipliers_def own_multipliers_def Object_prototype_keys_def
      num_lit_simps rnd64_numeral)

lemma calculateQuote_fallback:
  assumes "ty \<notin> {''residential'', ''commercial'', ''abandoned'', ''construction''}"
    and "ty \<notin> set Object_prototype_keys"
  shows "calculateQuote sz ty False False = fmul (fmul sz (num_lit (25 / 10))) (num_lit 1)"
  using assms by (simp add: calculateQuote_def multipliers_def own_multipliers_def)

lemma calculateQuote_inherited:
  assumes "ty \<in> set Object_prototype_keys"
  shows "calculateQuote sz ty hasHazard hasLawn = NaN"
proof -
  have "multipliers ty = Obj"
    using assms by (simp add: multipliers_Obj_iff)
  then have "fmul (fmul sz (num_lit (25 / 10))) (ToNumber (multipliers ty)) = NaN"
    by (cases "fmul sz (num_lit (25 / 10))") simp_all
  then show ?thesis
    using \<open>multipliers ty = Obj\<close> by (simp add: calculateQuote_def Let_def num_lit_simps)
qed

text \<open>
  Claim C8, amended. Without flags the two revisions of \<open>calculateQuote\<close> compute
  \<open>size * baseRate * multiplier\<close> with the same multiplier for every property type, but with
  the base rate 0.50 in \<open>script.js\<close> and 2.5 in the current revision. They return the same
  amount for the size 0; for a whole size below \<open>2^50\<close> and a residential property the one
  returns half the size and the other five times as much.
\<close>

theorem revisions_differ_by_base_rate:
  "calculateQuote_script sz ty
     = fmul (fmul sz (num_lit (50 / 100)))
         (ToNumber (if truthy (multipliers ty) then multipliers ty else Num (num_lit 1)))
   \<and> calculateQuote sz ty False False
     = fmul (fmul sz (num_lit (25 / 10)))
         (ToNumber (if truthy (multipliers ty) then multipliers ty else Num (num_lit 1)))
   \<and> calculateQuote_script (Fin 0) ty = calculateQuote (Fin 0) ty False False
   \<and> (\<bar>n\<bar> < 2 ^ 50 \<longrightarrow>
        calculateQuote_script (Fin (of_int n)) ''residential'' = Fin (of_int n / 2)
        \<and> calculateQuote (Fin (of_int n)) ''residential'' False False = Fin (5 * (of_int n / 2)))"
proof -
  have a: "calculateQuote_script sz ty
     = fmul (fmul sz (num_lit (50 / 100)))
         (ToNumber (if truthy (multipliers ty) then multipliers ty else Num (num_lit 1)))"
    and b: "calculateQuote sz ty False False
     = fmul (fmul sz (num_lit (25 / 10)))
         (ToNumber (if truthy (multipliers ty) then multipliers ty else Num (num_lit 1)))"
    and c: "calculateQuote_script (Fin 0) ty = calculateQuote (Fin 0) ty False False"
    by (simp_all add: calculateQuote_script_def calculateQuote_def Let_def num_lit_simps rnd64_0)
  have d: "calculateQuote_script (Fin (of_int n)) ''residential'' = Fin (of_int n / 2)
        \<and> calculateQuote (Fin (of_int n)) ''residential'' False False = Fin (5 * (of_int n / 2))"
    if n: "\<bar>n\<bar> < 2 ^ 50"
  proof -
    have "\<bar>n\<bar> < 2 ^ 53" "\<bar>5 * n\<bar> < 2 ^ 53"
      using n by (simp_all add: abs_mult)
    then have "rnd64 (of_int n / 2) = Fin (of_int n / 2)"
      "rnd64 (of_int (5 * n) / 2) = Fin (of_int (5 * n) / 2)"
      by (simp_all only: rnd64_half_int)
    then have "rnd64 (of_int n / 2) = Fin (of_int n / 2)"
      "rnd64 (of_int n * 5 / 2) = Fin (of_int n * 5 / 2)"
      by (simp_all add: mult.commute)
    then show ?thesis
      by (simp add: calculateQuote_script_def calculateQuote_def multipliers_own num_lit_simps)
  qed
  from a b c d show ?thesis
    by blast
qed

theorem revisions_differ_by_base_rate_witness:
  "\<bar>1000\<bar> < (2 ^ 50 :: int)
   \<and> calculateQuote_script (Fin (of_int 1000)) ''residential'' = Fin (of_int 1000 / 2)
   \<and> calculateQuote (Fin (of_int 1000)) ''residential'' False False = Fin (5 * (of_int 1000 / 2))"
  using revisions_differ_by_base_rate [of "Fin 0" "''residential''" 1000]
  by simp

text \<open>
  The two revisions differ at size 1000, residential: 500 against 2500.
\<close>

theorem revisions_differ_counterexample:
  "calculateQuote_script (Fin 1000) ''residential'' = Fin 500
   \<and> calculateQuote (Fin 1000) ''residential'' False False = Fin 2500
   \<and> calculateQuote_script (Fin 1000) ''residential''
       \<noteq> calculateQuote (Fin 1000) ''residential'' False False"
  by (simp add: calculateQuote_script_def calculateQuote_def multipliers_own num_lit_simps
      rnd64_numeral)

section \<open>Splitting and parsing\<close>

lemma split_js_nonempty: "split_js c s \<noteq> []"
  by (induction s) (auto split: list.splits)

lemma split_js_notin: "c \<notin> set s \<Longrightarrow> split_js c s = [s]"
  by (induction s) auto

lemma split_js_append: "split_js c (a @ c # b) = split_js c a @ split_js c b"
proof (induction a)
  case Nil
  show ?case by simp
next
  case (Cons x a)
  obtain y ys where "split_js c a = y # ys"
    using split_js_nonempty [of c a] by (cases "split_js c a") auto
  with Cons show ?case by simp
qed

lemma split_js_length: "c \<in> set s \<Longrightarrow> 2 \<le> length (split_js c s)"
proof (induction s)
  case Nil
  then show ?case by simp
next
  case (Cons x s)
  obtain y ys where y: "split_js c s = y # ys"
    using split_js_nonempty [of c s] by (cases "split_js c s") auto
  show ?case
  proof (cases "x = c")
    case True
    then show ?thesis by (simp add: y)
  next
    case False
    with Cons have "2 \<le> length (split_js c s)" by simp
    with False show ?thesis by (simp add: y)
  qed
qed

lemma digit_cases:
  assumes "k < (10::nat)"
  obtains "k = 0" | "k = 1" | "k = 2" | "k = 3" | "k = 4" | "k = 5" | "k = 6" | "k = 7" | "k = 8" | "k = 9"
  using assms by atomize_elim arith

lemma digit_of_digit_char: "digit_of 10 (digit_char d) = Some (d mod 10)"
proof -
  have "d mod 10 < 10" by simp
  then show ?thesis
    by (cases rule: digit_cases) (simp_all add: digit_of_def digit_char_def Let_def)
qed

lemma is_digit_digit_char: "is_digit (digit_char d)"
  by (simp add: is_digit_def digit_of_digit_char)

lemma is_digit_not_ws: "is_digit c \<Longrightarrow> \<not> is_ws c"
  by (auto simp: is_digit_def digit_of_def is_ws_def Let_def split: if_splits)

lemma is_digit_neq:
  assumes "is_digit c"
  shows "c \<noteq> CHR ''-''" "c \<noteq> CHR ''+''" "c \<noteq> CHR '':''" "c \<noteq> CHR ''.''" "c \<noteq> CHR ''I''"
    "c \<noteq> CHR ''x''" "c \<noteq> CHR ''X''" "c \<noteq> CHR ''o''" "c \<noteq> CHR ''O''" "c \<noteq> CHR ''b''" "c \<noteq> CHR ''B''"
  using assms by (auto simp: is_digit_def digit_of_def Let_def)

lemma trim_digits:
  assumes "s \<noteq> []" "list_all is_digit s"
  shows "trim s = s"
proof -
  have h: "\<not> is_ws (hd s)" and l: "\<not> is_ws (last s)"
    using assms by (auto simp: list_all_iff intro!: is_digit_not_ws)
  have 1: "dropWhile is_ws s = s"
    using assms(1) h by (cases s) auto
  have "dropWhile is_ws (rev s) = rev s"
    using assms(1) l by (cases "rev s") (auto simp: last_rev [symmetric] hd_rev)
  then show ?thesis
    by (simp add: trim_def 1)
qed

lemma Number_digits:
  assumes "s \<noteq> []" "list_all is_digit s"
  shows "Number s = rnd64 (of_nat (digits_val 10 s))"
proof -
  obtain c u where s: "s = c # u"
    using assms(1) by (cases s) auto
  have c: "is_digit c" and u: "list_all is_digit u"
    using assms(2) s by auto
  have tw: "takeWhile is_digit s = s" "dropWhile is_digit s = []"
    using assms(2) by (auto simp: list_all_iff)
  have dv: "dec_value s = Some (of_nat (digits_val 10 s))"
    using assms(1) by (simp add: dec_value_def tw exponent_part_def digits_val_def)
  have inf: "s \<noteq> ''Infinity''"
    using c s is_digit_neq(5) by auto
  have ul: "unsigned_literal False s = rnd64 (of_nat (digits_val 10 s))"
    using inf by (simp add: unsigned_literal_def dv)
  have "StrDecimalLiteral s = unsigned_literal False s"
    using is_digit_neq [OF c] by (simp add: StrDecimalLiteral_def s)
  with ul have dl: "StrDecimalLiteral s = rnd64 (of_nat (digits_val 10 s))"
    by simp
  have "StrNumericLiteral s = StrDecimalLiteral s"
  proof (cases u)
    case Nil
    then show ?thesis by (simp add: StrNumericLiteral_def s)
  next
    case (Cons x ds)
    with u have "is_digit x" by simp
    from is_digit_neq [OF this] show ?thesis
      by (simp add: StrNumericLiteral_def s Cons)
  qed
  then show ?thesis
    using assms by (simp add: Number_def trim_digits dl)
qed

lemma decimal_split2: "n div 10 mod 10 * 10 + n mod 10 = (n mod 100 :: nat)"
  using mod_mult2_eq [of n 10 10] by simp

lemma decimal_split4:
  "((n div 1000 mod 10 * 10 + n div 100 mod 10) * 10 + n div 10 mod 10) * 10 + n mod 10
     = (n mod 10000 :: nat)"
proof -
  have a: "n mod 10000 = 10 * (n div 10 mod 1000) + n mod 10"
    using mod_mult2_eq [of n 10 1000] by simp
  have b: "n div 10 mod 1000 = 10 * (n div 100 mod 100) + n div 10 mod 10"
    using mod_mult2_eq [of "n div 10" 10 100] by (simp add: div_mult2_eq [symmetric])
  have c: "n div 100 mod 100 = 10 * (n div 1000 mod 10) + n div 100 mod 10"
    using mod_mult2_eq [of "n div 100" 10 10] by (simp add: div_mult2_eq [symmetric])
  show ?thesis
    unfolding a b c by simp
qed

lemma digits_val_fmt2: "digits_val 10 (fmt2 n) = n mod 100"
  using decimal_split2 [of n] by (simp add: digits_val_def fmt2_def digit_of_digit_char)

lemma digits_val_fmt4: "digits_val 10 (fmt4 n) = n mod 10000"
  using decimal_split4 [of n] by (simp add: digits_val_def fmt4_def digit_of_digit_char)

lemma Number_fmt2: "n < 100 \<Longrightarrow> Number (fmt2 n) = Fin (of_nat n)"
  using Number_digits [of "fmt2 n"]
  by (simp add: digits_val_fmt2 rnd64_of_nat) (simp add: fmt2_def is_digit_digit_char)

lemma Number_fmt4: "n < 10000 \<Longrightarrow> Number (fmt4 n) = Fin (of_nat n)"
  using Number_digits [of "fmt4 n"]
  by (simp add: digits_val_fmt4 rnd64_of_nat) (simp add: fmt4_def is_digit_digit_char)

lemma digit_char_neq: "digit_char d \<noteq> CHR ''-''" "digit_char d \<noteq> CHR '':''"
  using is_digit_neq [OF is_digit_digit_char [of d]] by simp_all

lemma fmt_no_sep:
  "CHR ''-'' \<notin> set (fmt2 n)" "CHR ''-'' \<notin> set (fmt4 n)" "CHR '':'' \<notin> set (fmt2 n)"
  using digit_char_neq [of n] digit_char_neq [of "n div 10"] digit_char_neq [of "n div 100"]
    digit_char_neq [of "n div 1000"]
  by (auto simp: fmt2_def fmt4_def)

lemma split_date_string: "split_js CHR ''-'' (date_string y m d) = [fmt4 y, fmt2 m, fmt2 d]"
  by (simp add: date_string_def split_js_append split_js_notin fmt_no_sep)

lemma split_time_string: "split_js CHR '':'' (time_string h m) = [fmt2 h, fmt2 m]"
  by (simp add: time_string_def split_js_append split_js_notin fmt_no_sep)

section \<open>Calendar arithmetic\<close>

lemma leap_year_int: "InLeapYear (int y) = leap_year y"
proof -
  have "int y mod 4 = int (y mod 4)" "int y mod 100 = int (y mod 100)" "int y mod 400 = int (y mod 400)"
    by (simp_all add: zmod_int)
  then show ?thesis
    by (simp add: InLeapYear_def leap_year_def)
qed

lemma div_round_up:
  fixes k n :: int
  assumes "0 < n"
  shows "(k + (n - 1)) div n = k div n + (if n dvd k then 0 else 1)"
proof -
  have r: "0 \<le> k mod n" "k mod n < n"
    using assms by simp_all
  have "k + (n - 1) = (k mod n + (n - 1)) + n * (k div n)"
    by simp
  then have "(k + (n - 1)) div n = (k mod n + (n - 1)) div n + k div n"
    using assms by (metis add.commute div_mult_self2 less_irrefl)
  moreover have "(k mod n + (n - 1)) div n = (if n dvd k then 0 else 1)"
  proof (cases "k mod n = 0")
    case True
    then show ?thesis using assms by (simp add: mod_eq_0_iff_dvd)
  next
    case False
    with r have "n \<le> k mod n + (n - 1)" "k mod n + (n - 1) - n < n" "0 \<le> k mod n + (n - 1) - n"
      by simp_all
    then have "(k mod n + (n - 1)) div n = 1"
      using assms by (smt (verit) div_pos_geq div_pos_pos_trivial)
    with False show ?thesis by (simp add: mod_eq_0_iff_dvd)
  qed
  ultimately show ?thesis by simp
qed

lemma multiples_Suc:
  assumes "0 < n"
  shows "multiples n (Suc y) = multiples n y + (if n dvd int y then 1 else 0)"
proof -
  have "int (Suc y) + (n - 1) = int y + n"
    by simp
  then have "multiples n (Suc y) = int y div n + 1"
    using assms by (simp add: multiples_def)
  then show ?thesis
    using div_round_up [OF assms, of "int y"] by (simp add: multiples_def)
qed

lemma leap_year_dvd:
  "leap_year y \<longleftrightarrow> 4 dvd int y \<and> (\<not> 100 dvd int y \<or> 400 dvd int y)"
proof -
  have "(4 dvd int y) = (4 dvd y)" "(100 dvd int y) = (100 dvd y)" "(400 dvd int y) = (400 dvd y)"
    using int_dvd_int_iff [of 4 y] int_dvd_int_iff [of 100 y] int_dvd_int_iff [of 400 y]
    by simp_all
  then show ?thesis
    by (simp add: leap_year_def mod_eq_0_iff_dvd)
qed

lemma days_in_year_count:
  "int (days_in_year y)
     = 365 + (if 4 dvd int y then 1 else 0) - (if 100 dvd int y then 1 else 0)
       + (if 400 dvd int y then 1 else 0)"
proof -
  have "(4::int) dvd 100" "(100::int) dvd 400"
    by simp_all
  then have "100 dvd int y \<Longrightarrow> 4 dvd int y" "400 dvd int y \<Longrightarrow> 100 dvd int y"
    using dvd_trans by blast+
  then show ?thesis
    by (auto simp: days_in_year_def leap_year_dvd)
qed

lemma days_before_year_closed:
  "int (days_before_year y) = 365 * int y + multiples 4 y - multiples 100 y + multiples 400 y"
proof (induction y)
  case 0
  show ?case by (simp add: multiples_def)
next
  case (Suc y)
  then show ?case
    by (simp add: multiples_Suc days_in_year_count)
qed

lemma shift_eq: "x = c + y \<Longrightarrow> y = x - (c::int)"
  by simp

lemma div_shift:
  "(int y - 1969) div 4 = multiples 4 y - 493"
  "(int y - 1901) div 100 = multiples 100 y - 20"
  "(int y - 1601) div 400 = multiples 400 y - 5"
proof -
  have "(int y - 1969 + 4 * 493) div 4 = 493 + (int y - 1969) div 4"
    by (rule div_mult_self2) simp
  moreover have "int y - 1969 + 4 * 493 = int y + (4 - 1)"
    by simp
  ultimately have "multiples 4 y = 493 + (int y - 1969) div 4"
    by (simp only: multiples_def)
  then show "(int y - 1969) div 4 = multiples 4 y - 493"
    by (rule shift_eq)
  have "(int y - 1901 + 100 * 20) div 100 = 20 + (int y - 1901) div 100"
    by (rule div_mult_self2) simp
  moreover have "int y - 1901 + 100 * 20 = int y + (100 - 1)"
    by simp
  ultimately have "multiples 100 y = 20 + (int y - 1901) div 100"
    by (simp only: multiples_def)
  then show "(int y - 1901) div 100 = multiples 100 y - 20"
    by (rule shift_eq)
  have "(int y - 1601 + 400 * 5) div 400 = 5 + (int y - 1601) div 400"
    by (rule div_mult_self2) simp
  moreover have "int y - 1601 + 400 * 5 = int y + (400 - 1)"
    by simp
  ultimately have "multiples 400 y = 5 + (int y - 1601) div 400"
    by (simp only: multiples_def)
  then show "(int y - 1601) div 400 = multiples 400 y - 5"
    by (rule shift_eq)
qed

lemma DayFromYear_int: "DayFromYear (int y) = int (days_before_year y) - 719528"
  unfolding DayFromYear_def div_shift days_before_year_closed by simp

lemma month_cases:
  assumes "1 \<le> m" "m \<le> (12::nat)"
  obtains "m = 1" | "m = 2" | "m = 3" | "m = 4" | "m = 5" | "m = 6"
    | "m = 7" | "m = 8" | "m = 9" | "m = 10" | "m = 11" | "m = 12"
  using assms by atomize_elim arith

lemma month_start_int:
  assumes "1 \<le> m" "m \<le> 12"
  shows "month_start (int m - 1) (leap_year y) = int (days_before_month y m)"
  using assms
  by (cases rule: month_cases)
    (simp_all add: month_start_def days_in_month_def eval_nat_numeral)

lemma month_start_bounds:
  assumes "1 \<le> m" "m \<le> 12"
  shows "0 \<le> month_start (int m - 1) b \<and> month_start (int m - 1) b \<le> 335"
  using assms
  by (cases rule: month_cases) (simp_all add: month_start_def eval_nat_numeral)

lemma DayFromYear_bounds:
  assumes "0 \<le> y" "y \<le> 9999"
  shows "- 720000 \<le> DayFromYear y \<and> DayFromYear y \<le> 2940000"
proof -
  define a b c where "a = (y - 1969) div 4" and "b = (y - 1901) div 100"
    and "c = (y - 1601) div 400"
  have "(0 - 1969) div 4 \<le> a" "a \<le> (9999 - 1969) div 4"
    "(0 - 1901) div 100 \<le> b" "b \<le> (9999 - 1901) div 100"
    "(0 - 1601) div 400 \<le> c" "c \<le> (9999 - 1601) div 400"
    unfolding a_def b_def c_def using assms by (intro zdiv_mono1; simp)+
  then have "- 493 \<le> a" "a \<le> 2007" "- 20 \<le> b" "b \<le> 80" "- 5 \<le> c" "c \<le> 20"
    by simp_all
  moreover have "DayFromYear y = 365 * (y - 1970) + a - b + c"
    by (simp only: DayFromYear_def a_def b_def c_def)
  ultimately show ?thesis
    using assms by simp
qed

lemma days_in_month_le: "days_in_month y m \<le> 31"
  by (simp add: days_in_month_def)

lemma trunc_of_int: "trunc (of_int k) = k"
  by (simp add: trunc_def)

lemma trunc_of_nat: "trunc (of_nat n) = int n"
  using trunc_of_int [of "int n"] by simp

lemma trunc_pred: "trunc (of_nat m - 1) = int m - 1"
  using trunc_of_int [of "int m - 1"] by simp

lemma Day_msPerDay: "Day (d * msPerDay) = d"
  by (simp add: Day_def msPerDay_def)

lemma Day_within:
  assumes "0 \<le> s" "s < msPerDay"
  shows "Day (D * msPerDay + s) = D"
proof -
  have "(s + D * msPerDay) div msPerDay = D + s div msPerDay"
    by (rule div_mult_self1) (simp add: msPerDay_def)
  moreover have "s div msPerDay = 0"
    using assms by (rule div_pos_pos_trivial)
  ultimately show ?thesis
    by (simp add: Day_def add.commute)
qed

lemma day_of_bounds:
  assumes y: "100 \<le> y" "y \<le> 9999" and m: "1 \<le> m" "m \<le> 12" and d: "d \<le> 31"
  shows "- 720001 \<le> day_of (int y) m d" "day_of (int y) m d \<le> 2940366"
proof -
  have "- 720000 \<le> DayFromYear (int y)" "DayFromYear (int y) \<le> 2940000"
    using DayFromYear_bounds [of "int y"] y by simp_all
  moreover have "0 \<le> month_start (int m - 1) (InLeapYear (int y))"
    "month_start (int m - 1) (InLeapYear (int y)) \<le> 335"
    using month_start_bounds [OF m] by simp_all
  ultimately show "- 720001 \<le> day_of (int y) m d" "day_of (int y) m d \<le> 2940366"
    using d by (simp_all add: day_of_def)
qed

text \<open>
  The Date built from a year of 100 to 9999, a month and a day: local midnight of that
  day, turned into an instant with the offset by which the zone reads it.
\<close>

lemma new_Date_formatted:
  assumes y: "100 \<le> y" "y \<le> 9999" and m: "1 \<le> m" "m \<le> 12" and d: "d \<le> 31"
    and lo: "\<bar>tza_at_local z (day_of (int y) m d * msPerDay)\<bar> \<le> msPerDay"
  shows "new_Date z (Num (Fin (of_nat y))) (Num (Fin (of_nat m - 1))) (Num (Fin (of_nat d)))
     = Some (UTC z (day_of (int y) m d * msPerDay))"
proof -
  define D where "D = day_of (int y) m d"
  have fy: "MakeFullYear (Fin (of_nat y)) = Fin (of_nat y)"
    using y by (simp add: MakeFullYear_def trunc_of_nat Let_def)
  have mm: "(int m - 1) div 12 = 0" "(int m - 1) mod 12 = int m - 1"
    using m by simp_all
  have md: "MakeDay (Fin (of_nat y)) (Fin (of_nat m - 1)) (Fin (of_nat d)) = Some D"
    by (simp add: MakeDay_def trunc_of_nat trunc_pred mm D_def day_of_def Let_def)
  have Db: "- 720001 \<le> D" "D \<le> 2940366"
    using day_of_bounds [OF y m d] by (simp_all add: D_def)
  define T where "T = D * msPerDay"
  define c where "c = tza_at_local z T"
  have "- 62208086400000 \<le> T" "T \<le> 254047622400000"
    using Db by (simp_all add: T_def msPerDay_def)
  moreover have "\<bar>c\<bar> \<le> msPerDay"
    using lo unfolding c_def T_def D_def .
  ultimately have "\<not> 8640000000000000 < \<bar>T - c\<bar>"
    unfolding msPerDay_def by linarith
  then have clip: "\<not> 8640000000000000 < \<bar>UTC z (D * msPerDay)\<bar>"
    by (simp add: UTC_def c_def T_def)
  have "new_Date z (Num (Fin (of_nat y))) (Num (Fin (of_nat m - 1))) (Num (Fin (of_nat d)))
      = Some (UTC z (D * msPerDay))"
    using clip by (simp add: new_Date_def fy md MakeDate_def TimeClip_def)
  then show ?thesis
    unfolding D_def .
qed

section \<open>The availability check: properties\<close>

lemma availability_strings:
  "isWithinAvailability z (JStr d) (JStr t) =
     (\<not> (flt (date_day z d) (Fin 1) \<or> flt (Fin 5) (date_day z d))
      \<and> \<not> (js_lt (elem_at (map Number (split_js CHR '':'' t)) 0) (Num (Fin 8))
            \<or> js_gt (elem_at (map Number (split_js CHR '':'' t)) 0) (Num (Fin 17)))
      \<and> \<not> (strict_eq (elem_at (map Number (split_js CHR '':'' t)) 0) (Fin 17)
            \<and> js_gt (elem_at (map Number (split_js CHR '':'' t)) 1) (Num (Fin 0))))"
  by (simp add: isWithinAvailability_def availability_body_def split_method_def date_day_def
      Let_def num_lit_simps)

lemma availability_not_strings:
  "isWithinAvailability z JOther t = False" "isWithinAvailability z d JOther = False"
  by (cases d; simp add: isWithinAvailability_def availability_body_def split_method_def)+

lemma trunc_add_nat: "trunc (numeral k + of_nat n) = numeral k + int n"
  using trunc_of_int [of "numeral k + int n"] by simp

text \<open>
  The weekday computed from a date string \<open>YYYY-MM-DD\<close>: a year below 100 is read as a
  year of the twentieth century; the instant of the Date is turned back into a local
  time with the offset in force at that instant.
\<close>

lemma date_day_formatted:
  fixes y :: nat
  defines "Y \<equiv> (if y \<le> 99 then 1900 + y else y)"
  assumes y: "y \<le> 9999" and m: "1 \<le> m" "m \<le> 12" and d: "d \<le> 31"
    and lo: "\<bar>tza_at_local z (day_of (int Y) m d * msPerDay)\<bar> \<le> msPerDay"
  shows "date_day z (date_string y m d)
     = Fin (of_int (WeekDay (LocalTime z (UTC z (day_of (int Y) m d * msPerDay)))))"
proof -
  have n: "Number (fmt4 y) = Fin (of_nat y)" "Number (fmt2 m) = Fin (of_nat m)"
    "Number (fmt2 d) = Fin (of_nat d)"
    using y m d by (simp_all add: Number_fmt4 Number_fmt2)
  have s: "fsub (Fin (of_nat m)) (num_lit 1) = Fin (of_nat m - 1)"
    using rnd64_of_int [of "int m - 1"] m by (simp add: fsub_def num_lit_simps)
  have dd: "date_day z (date_string y m d)
      = getDay z (new_Date z (Num (Fin (of_nat y))) (Num (Fin (of_nat m - 1))) (Num (Fin (of_nat d))))"
    by (simp add: date_day_def split_date_string n elem_at_def s)
  have Y: "100 \<le> Y" "Y \<le> 9999"
    using y by (simp_all add: Y_def)
  have fy: "MakeFullYear (Fin (of_nat y)) = MakeFullYear (Fin (of_nat Y))"
    by (simp add: Y_def MakeFullYear_def trunc_of_nat trunc_add_nat Let_def)
  have "new_Date z (Num (Fin (of_nat y))) (Num (Fin (of_nat m - 1))) (Num (Fin (of_nat d)))
      = new_Date z (Num (Fin (of_nat Y))) (Num (Fin (of_nat m - 1))) (Num (Fin (of_nat d)))"
    unfolding new_Date_def ToNumber.simps fy ..
  also have "\<dots> = Some (UTC z (day_of (int Y) m d * msPerDay))"
    using Y m d lo by (rule new_Date_formatted)
  finally show ?thesis
    by (simp add: dd getDay_def)
qed

lemma WeekDay_keeps:
  assumes "keeps_local_day z (D * msPerDay)"
  shows "WeekDay (LocalTime z (UTC z (D * msPerDay))) = (D + 4) mod 7"
proof -
  define lo where "lo = tza_at_local z (D * msPerDay)"
  define uo where "uo = tza_at_utc z (UTC z (D * msPerDay))"
  have b: "0 \<le> uo - lo" "uo - lo < msPerDay"
    using assms by (simp_all add: keeps_local_day_def lo_def uo_def)
  have "LocalTime z (UTC z (D * msPerDay)) = D * msPerDay + (uo - lo)"
    by (simp add: LocalTime_def UTC_def lo_def uo_def)
  moreover have "Day (D * msPerDay + (uo - lo)) = D"
    using b by (rule Day_within)
  ultimately show ?thesis
    by (simp add: WeekDay_def)
qed

lemma keeps_local_day_fixed:
  assumes "\<bar>c\<bar> \<le> msPerDay"
  shows "keeps_local_day (fixed_zone c) t"
  using assms by (simp add: keeps_local_day_def fixed_zone_def msPerDay_def)

lemma day_number_anchor: "day_number 2024 6 10 = 739413"
proof -
  have "multiples 4 2024 = 506" "multiples 100 2024 = 21" "multiples 400 2024 = 6"
    by (simp_all add: multiples_def)
  then have "int (days_before_year 2024) = 739251"
    by (simp add: days_before_year_closed)
  moreover have "int (days_before_month 2024 6) = 152"
    using month_start_int [of 6 2024] by (simp add: month_start_def leap_year_def)
  ultimately show ?thesis
    by (simp add: day_number_def)
qed

lemma day_number_epoch: "day_number 1970 1 1 = 719529"
proof -
  have "multiples 4 1970 = 493" "multiples 100 1970 = 20" "multiples 400 1970 = 5"
    by (simp_all add: multiples_def)
  then have "int (days_before_year 1970) = 719528"
    by (simp add: days_before_year_closed)
  then show ?thesis
    by (simp add: day_number_def)
qed

lemma day_number_day_of:
  assumes "1 \<le> m" "m \<le> 12"
  shows "day_number y m d = day_of (int y) m d + 719529"
  using month_start_int [OF assms, of y]
  by (simp add: day_number_def DayFromYear_int leap_year_int day_of_def)

lemma local_midnight_eq:
  assumes "1 \<le> m" "m \<le> 12"
  shows "local_midnight y m d = day_of (int y) m d * msPerDay"
  unfolding local_midnight_def day_number_epoch day_number_day_of [OF assms] by simp

lemma calendar_weekday_closed:
  assumes "1 \<le> m" "m \<le> 12"
  shows "calendar_weekday y m d = (day_of (int y) m d + 4) mod 7"
proof -
  define x where "x = day_of (int y) m d"
  have "calendar_weekday y m d = (x + 4 + 7 * (- 2841)) mod 7"
    by (simp add: calendar_weekday_def day_number_day_of [OF assms] day_number_anchor x_def)
  also have "\<dots> = (x + 4) mod 7"
    by (rule mod_mult_self2)
  finally show ?thesis
    unfolding x_def .
qed

text \<open>
  In a zone that keeps the local midnight of an existing date on its day, the weekday
  computed from the date string is the day of the week of the date, for the years that
  are written with four digits and read as they are written.
\<close>

lemma date_day_calendar:
  assumes v: "valid_date y m d" and y: "100 \<le> y" "y \<le> 9999"
    and k: "keeps_local_day z (local_midnight y m d)"
  shows "date_day z (date_string y m d) = Fin (of_int (calendar_weekday y m d))"
proof -
  from v have m: "1 \<le> m" "m \<le> 12" and d: "d \<le> 31"
    using days_in_month_le [of y m] by (auto simp: valid_date_def)
  have Y: "(if y \<le> 99 then 1900 + y else y) = y"
    using y by simp
  have k': "keeps_local_day z (day_of (int y) m d * msPerDay)"
    using k by (simp add: local_midnight_eq [OF m])
  then have lo: "\<bar>tza_at_local z (day_of (int y) m d * msPerDay)\<bar> \<le> msPerDay"
    by (simp add: keeps_local_day_def)
  have "date_day z (date_string y m d)
      = Fin (of_int (WeekDay (LocalTime z (UTC z (day_of (int y) m d * msPerDay)))))"
    using date_day_formatted [OF y(2) m d, of z] lo unfolding Y by simp
  then show ?thesis
    by (simp add: WeekDay_keeps [OF k'] calendar_weekday_closed [OF m])
qed

lemma date_day_fixed:
  assumes "y \<le> 9999" "1 \<le> m" "m \<le> 12" "d \<le> 31" "\<bar>c\<bar> \<le> msPerDay"
  shows "date_day (fixed_zone c) (date_string y m d)
     = Fin (of_int ((day_of (int (if y \<le> 99 then 1900 + y else y)) m d + 4) mod 7))"
proof -
  have "\<bar>tza_at_local (fixed_zone c) t\<bar> \<le> msPerDay" for t
    using assms(5) by (simp add: fixed_zone_def)
  then show ?thesis
    using date_day_formatted [OF assms(1-4), of "fixed_zone c"]
    by (simp add: WeekDay_keeps [OF keeps_local_day_fixed [OF assms(5)]])
qed

lemma ex_dates: "date_string 2024 6 10 = ''2024-06-10''" "date_string 2024 6 8 = ''2024-06-08''"
  by (simp_all add: date_string_def fmt4_def fmt2_def digit_char_def)

lemma ex_times: "time_string 8 0 = ''08:00''" "time_string 17 0 = ''17:00''"
  "time_string 17 1 = ''17:01''" "time_string 10 0 = ''10:00''" "time_string 7 59 = ''07:59''"
  "time_string 16 59 = ''16:59''" "time_string 17 (Suc 0) = ''17:01''"
  by (simp_all add: time_string_def fmt2_def digit_char_def)

lemma ex_day_of: "day_of 2024 6 10 = 19884" "day_of 2024 6 8 = 19882" "day_of 2011 12 30 = 15338"
  "day_of 2011 12 29 = 15337"
  "day_of 1950 6 5 = - 7150" "day_of 1950 6 10 = - 7145" "day_of 50 6 5 = - 701110"
  "day_of 50 6 10 = - 701105"
  by (simp_all add: day_of_def DayFromYear_def month_start_def InLeapYear_def)

lemma date_day_examples:
  assumes "\<bar>c\<bar> \<le> msPerDay"
  shows "date_day (fixed_zone c) ''2024-06-10'' = Fin 1"
    "date_day (fixed_zone c) ''2024-06-08'' = Fin 6"
  using date_day_fixed [of 2024 6 10 c] date_day_fixed [of 2024 6 8 c] assms
  by (simp_all add: ex_dates ex_day_of)

lemma calendar_examples:
  "calendar_weekday 1970 1 1 = 4" "calendar_weekday 2024 6 8 = 6" "calendar_weekday 2000 2 29 = 2"
  "calendar_weekday 2024 6 10 = 1" "calendar_weekday 2011 12 30 = 5"
  "calendar_weekday 2011 12 29 = 4"
  "calendar_weekday 50 6 5 = 0" "calendar_weekday 50 6 10 = 5"
  by (simp_all add: calendar_weekday_closed day_of_def DayFromYear_def month_start_def
      InLeapYear_def)

lemma valid_examples: "valid_date 2024 6 10" "valid_date 2024 6 8" "valid_date 2011 12 30"
  "valid_date 50 6 5" "valid_date 50 6 10" "valid_date 2011 12 29"
  by (simp_all add: valid_date_def days_in_month_def)

lemma zone_examples: "\<bar>- 18000000\<bar> \<le> msPerDay" "\<bar>3600000\<bar> \<le> msPerDay" "\<bar>0\<bar> \<le> msPerDay"
  "0 \<le> msPerDay"
  by (simp_all add: msPerDay_def)

lemma Number_time_string:
  assumes "h < 100" "m < 100"
  shows "map Number (split_js CHR '':'' (time_string h m)) = [Fin (of_nat h), Fin (of_nat m)]"
  using assms by (simp add: split_time_string Number_fmt2)

text \<open>
  On a date whose computed weekday is Monday to Friday, a time \<open>HH:MM\<close> with two-digit
  fields and \<open>MM < 60\<close> is accepted exactly when it lies between 08:00 and 17:00 inclusive.
\<close>

lemma business_hours_computed_weekday:
  assumes "date_day z d = Fin (of_int k)" and "1 \<le> k" "k \<le> 5" and "h < 100" "m < 60"
  shows "isWithinAvailability z (JStr d) (JStr (time_string h m))
     = (8 * 60 \<le> h * 60 + m \<and> h * 60 + m \<le> 17 * 60)"
proof -
  have day: "\<not> (flt (date_day z d) (Fin 1) \<or> flt (Fin 5) (date_day z d))"
    using assms(1-3) by simp
  have "isWithinAvailability z (JStr d) (JStr (time_string h m))
      = (\<not> (h < 8 \<or> 17 < h) \<and> \<not> (h = 17 \<and> 0 < m))"
    using assms(4,5) day
    by (simp add: availability_strings Number_time_string elem_at_def js_lt_def js_gt_def)
  also have "\<dots> = (8 * 60 \<le> h * 60 + m \<and> h * 60 + m \<le> 17 * 60)"
    using assms(5) by auto
  finally show ?thesis .
qed

text \<open>
  Claim C3, amended. For every date string \<open>YYYY-MM-DD\<close> that names an existing calendar
  date with a year from 0100 to 9999 which is a Monday, Tuesday, Wednesday, Thursday or
  Friday, in every time zone that keeps the local midnight of that date on its day, a
  time \<open>HH:MM\<close> with two-digit fields and \<open>MM < 60\<close> is accepted exactly when it lies between
  08:00 and 17:00 inclusive: 08:00, 16:59 and 17:00 are accepted, 17:01 to 17:59 and every
  hour below 8 or above 17 are rejected.
\<close>

theorem weekday_business_hours:
  assumes "valid_date y m d" and "100 \<le> y" "y \<le> 9999"
    and "keeps_local_day z (local_midnight y m d)"
    and "1 \<le> calendar_weekday y m d" "calendar_weekday y m d \<le> 5"
    and "h < 100" "mi < 60"
  shows "isWithinAvailability z (JStr (date_string y m d)) (JStr (time_string h mi))
     = (8 * 60 \<le> h * 60 + mi \<and> h * 60 + mi \<le> 17 * 60)"
  using date_day_calendar [OF assms(1-4)] assms(5-8)
  by (rule business_hours_computed_weekday)

theorem weekday_business_hours_witness:
  "valid_date 2024 6 10 \<and> (100::nat) \<le> 2024 \<and> (2024::nat) \<le> 9999
   \<and> keeps_local_day (fixed_zone (- 18000000)) (local_midnight 2024 6 10)
   \<and> calendar_weekday 2024 6 10 = 1
   \<and> isWithinAvailability (fixed_zone (- 18000000)) (JStr ''2024-06-10'') (JStr ''08:00'')
   \<and> isWithinAvailability (fixed_zone (- 18000000)) (JStr ''2024-06-10'') (JStr ''16:59'')
   \<and> isWithinAvailability (fixed_zone (- 18000000)) (JStr ''2024-06-10'') (JStr ''17:00'')
   \<and> \<not> isWithinAvailability (fixed_zone (- 18000000)) (JStr ''2024-06-10'') (JStr ''17:01'')
   \<and> \<not> isWithinAvailability (fixed_zone (- 18000000)) (JStr ''2024-06-10'') (JStr ''07:59'')"
proof -
  note v = valid_examples(1)
  have y: "(100::nat) \<le> 2024" "(2024::nat) \<le> 9999"
    by simp_all
  have k: "keeps_local_day (fixed_zone (- 18000000)) (local_midnight 2024 6 10)"
    by (rule keeps_local_day_fixed) (rule zone_examples)
  have w: "1 \<le> calendar_weekday 2024 6 10" "calendar_weekday 2024 6 10 \<le> 5"
    by (simp_all add: calendar_examples)
  show ?thesis
    using v k weekday_business_hours [OF v y k w, of 8 0] weekday_business_hours [OF v y k w, of 16 59]
      weekday_business_hours [OF v y k w, of 17 0] weekday_business_hours [OF v y k w, of 17 1]
      weekday_business_hours [OF v y k w, of 7 59]
    by (simp add: ex_times ex_dates calendar_examples)
qed

lemma apia_2011_examples:
  "date_string 2011 12 30 = ''2011-12-30''" "date_day apia_2011 ''2011-12-30'' = Fin 6"
  "date_string 2011 12 29 = ''2011-12-29''"
  "keeps_local_day apia_2011 (local_midnight 2011 12 29)"
proof -
  show "date_string 2011 12 29 = ''2011-12-29''"
    by (simp add: date_string_def fmt4_def fmt2_def digit_char_def)
  have "local_midnight 2011 12 29 = 1325116800000"
    by (simp add: local_midnight_eq ex_day_of msPerDay_def)
  then show "keeps_local_day apia_2011 (local_midnight 2011 12 29)"
    by (simp add: keeps_local_day_def apia_2011_def UTC_def msPerDay_def)
  show s: "date_string 2011 12 30 = ''2011-12-30''"
    by (simp add: date_string_def fmt4_def fmt2_def digit_char_def)
  show "date_day apia_2011 ''2011-12-30'' = Fin 6"
    using date_day_formatted [of 2011 12 30 apia_2011]
    by (simp add: s ex_day_of apia_2011_def msPerDay_def UTC_def LocalTime_def WeekDay_def Day_def)
qed

text \<open>
  Claim C3 as stated fails where the local time zone skips the date: 30 December 2011 was
  a Friday, and in the zone Pacific/Apia, whose clocks went from the end of 29 December
  to the beginning of 31 December, the Date built for \<open>"2011-12-30"\<close> falls on Saturday
  31 December, so that the check rejects the date at 10:00.
\<close>

theorem weekday_business_hours_counterexample:
  "valid_date 2011 12 30 \<and> calendar_weekday 2011 12 30 = 5
   \<and> date_string 2011 12 30 = ''2011-12-30'' \<and> time_string 10 0 = ''10:00''
   \<and> isWithinAvailability apia_2011 (JStr ''2011-12-30'') (JStr ''10:00'') = False"
  by (simp add: valid_examples calendar_examples apia_2011_examples ex_times availability_strings)

text \<open>
  Claim C5. When the computed weekday is Sunday (0) or Saturday (6), the check returns
  false whatever the time argument is.
\<close>

theorem weekend_rejected:
  assumes "date_day z d = Fin 0 \<or> date_day z d = Fin 6"
  shows "isWithinAvailability z (JStr d) t = False"
proof (cases t)
  case (JStr s)
  from assms have "flt (date_day z d) (Fin 1) \<or> flt (Fin 5) (date_day z d)"
    by auto
  then show ?thesis
    by (simp add: JStr availability_strings)
next
  case JOther
  then show ?thesis
    by (simp add: availability_not_strings)
qed

theorem weekend_rejected_witness:
  "(date_day (fixed_zone 0) ''2024-06-08'' = Fin 0 \<or> date_day (fixed_zone 0) ''2024-06-08'' = Fin 6)
   \<and> isWithinAvailability (fixed_zone 0) (JStr ''2024-06-08'') (JStr ''10:00'') = False"
proof -
  have d: "date_day (fixed_zone 0) ''2024-06-08'' = Fin 0 \<or> date_day (fixed_zone 0) ''2024-06-08'' = Fin 6"
    by (simp add: date_day_examples zone_examples)
  from d weekend_rejected [OF d, of "JStr ''10:00''"] show ?thesis
    by simp
qed

text \<open>
  Claim C10. Components of the time string after hour and minute are ignored: appending
  \<open>":"\<close> and any further text to a time that has an hour and a minute leaves the verdict
  unchanged.
\<close>

theorem extra_time_components_ignored:
  assumes "CHR '':'' \<in> set t"
  shows "isWithinAvailability z d (JStr (t @ '':'' @ extra)) = isWithinAvailability z d (JStr t)"
proof (cases d)
  case (JStr s)
  let ?a = "map Number (split_js CHR '':'' t)" and ?b = "map Number (split_js CHR '':'' extra)"
  have sp: "map Number (split_js CHR '':'' (t @ '':'' @ extra)) = ?a @ ?b"
    by (simp add: split_js_append)
  have "2 \<le> length ?a"
    using split_js_length [OF assms] by simp
  then have "elem_at (?a @ ?b) 0 = elem_at ?a 0" "elem_at (?a @ ?b) 1 = elem_at ?a 1"
    by (simp_all add: elem_at_def nth_append split_js_nonempty)
  then show ?thesis
    unfolding JStr availability_strings sp by simp
next
  case JOther
  then show ?thesis
    by (simp add: availability_not_strings)
qed

theorem extra_time_components_ignored_witness:
  "CHR '':'' \<in> set ''17:00''
   \<and> isWithinAvailability (fixed_zone 0) (JStr ''2024-06-10'') (JStr ''17:00:45'')
     = isWithinAvailability (fixed_zone 0) (JStr ''2024-06-10'') (JStr ''17:00'')"
  using extra_time_components_ignored [of "''17:00''" "fixed_zone 0" "JStr ''2024-06-10''" "''45''"]
  by simp

lemma Number_abc: "Number ''abc'' = NaN" "Number ''ab'' = NaN" "Number ''cd'' = NaN"
  by (simp_all add: Number_def trim_def is_ws_def StrNumericLiteral_def StrDecimalLiteral_def
      unsigned_literal_def dec_value_def is_digit_def digit_of_def)

lemma date_day_abc: "date_day z ''abc'' = NaN"
  by (simp add: date_day_def Number_abc elem_at_def fsub_def new_Date_def MakeFullYear_def
      MakeDay_def MakeDate_def TimeClip_def getDay_def)

text \<open>
  Claim C2 at a malformed date: for \<open>"abc"\<close> the Date is invalid, \<open>getDay\<close> returns NaN,
  both comparisons of the weekday test are false on NaN, and the check goes on to accept
  the time 10:00, where the claim says it returns false.
\<close>

theorem malformed_date_accepted:
  "isWithinAvailability z (JStr ''abc'') (JStr ''10:00'') = True"
  using Number_time_string [of 10 0]
  by (simp add: availability_strings date_day_abc ex_times elem_at_def js_lt_def js_gt_def)

text \<open>
  Further malformed inputs that are accepted: a malformed time on a weekday, a year beyond
  the range of Date, a date without a day.
\<close>

lemma malformed_time_accepted:
  "isWithinAvailability (fixed_zone 0) (JStr ''2024-06-10'') (JStr ''ab:cd'') = True"
  by (simp add: availability_strings date_day_examples zone_examples Number_abc elem_at_def
      js_lt_def js_gt_def)

lemma Number_300000: "Number ''300000'' = Fin 300000" "Number ''01'' = Fin 1" "Number ''2024'' = Fin 2024"
  "Number ''06'' = Fin 6"
proof -
  have d: "digits_val 10 ''300000'' = 300000" "digits_val 10 ''01'' = 1" "digits_val 10 ''2024'' = 2024"
    "digits_val 10 ''06'' = 6"
    by (simp_all add: digits_val_def digit_of_def)
  show "Number ''300000'' = Fin 300000" "Number ''01'' = Fin 1" "Number ''2024'' = Fin 2024"
    "Number ''06'' = Fin 6"
    by (subst Number_digits; simp add: is_digit_def digit_of_def d rnd64_numeral rnd64_1)+
qed

lemma out_of_range_year_accepted:
  "date_day (fixed_zone 0) ''300000-01-01'' = NaN"
  "isWithinAvailability (fixed_zone 0) (JStr ''300000-01-01'') (JStr ''10:00'') = True"
proof -
  have s: "fsub (Fin 1) (num_lit 1) = Fin 0"
    by (simp add: fsub_def num_lit_simps rnd64_0)
  show d: "date_day (fixed_zone 0) ''300000-01-01'' = NaN"
    by (simp add: date_day_def Number_300000 elem_at_def s new_Date_def MakeFullYear_def trunc_def
        MakeDay_def DayFromYear_def month_start_def InLeapYear_def MakeDate_def msPerDay_def
        UTC_def fixed_zone_def TimeClip_def getDay_def)
  show "isWithinAvailability (fixed_zone 0) (JStr ''300000-01-01'') (JStr ''10:00'') = True"
    using Number_time_string [of 10 0]
    by (simp add: availability_strings d ex_times elem_at_def js_lt_def js_gt_def)
qed

lemma missing_day_accepted:
  "isWithinAvailability z (JStr ''2024-06'') (JStr ''10:00'') = True"
proof -
  have "date_day z ''2024-06'' = NaN"
    by (simp add: date_day_def Number_300000 elem_at_def Let_def new_Date_def MakeFullYear_def
        trunc_def fsub_def num_lit_simps rnd64_numeral MakeDay_def MakeDate_def TimeClip_def
        getDay_def)
  then show ?thesis
    using Number_time_string [of 10 0]
    by (simp add: availability_strings ex_times elem_at_def js_lt_def js_gt_def)
qed




text \<open>
  Years below 100. The Date constructor reads a year from 0 to 99 as 1900 to 1999, so
  the weekday computed for a date string \<open>00YY-MM-DD\<close> is that of the same day of the
  year \<open>19YY\<close>: \<open>"0050-06-05"\<close>, a Sunday, is given the Monday of 5 June 1950 and accepted;
  \<open>"0050-06-10"\<close>, a Friday, is given the Saturday of 10 June 1950 and rejected.
\<close>

lemma year_below_100_examples:
  "date_string 50 6 5 = ''0050-06-05''" "date_string 50 6 10 = ''0050-06-10''"
  "date_day (fixed_zone 0) ''0050-06-05'' = Fin 1" "calendar_weekday 50 6 5 = 0"
  "date_day (fixed_zone 0) ''0050-06-10'' = Fin 6" "calendar_weekday 50 6 10 = 5"
  "isWithinAvailability (fixed_zone 0) (JStr ''0050-06-05'') (JStr ''10:00'') = True"
  "isWithinAvailability (fixed_zone 0) (JStr ''0050-06-10'') (JStr ''10:00'') = False"
proof -
  show s: "date_string 50 6 5 = ''0050-06-05''" "date_string 50 6 10 = ''0050-06-10''"
    by (simp_all add: date_string_def fmt4_def fmt2_def digit_char_def)
  show d: "date_day (fixed_zone 0) ''0050-06-05'' = Fin 1"
    "date_day (fixed_zone 0) ''0050-06-10'' = Fin 6"
    using date_day_fixed [of 50 6 5 0] date_day_fixed [of 50 6 10 0]
    by (simp_all add: s ex_day_of zone_examples)
  show "calendar_weekday 50 6 5 = 0" "calendar_weekday 50 6 10 = 5"
    by (simp_all add: calendar_examples)
  show "isWithinAvailability (fixed_zone 0) (JStr ''0050-06-05'') (JStr ''10:00'') = True"
    using Number_time_string [of 10 0]
    by (simp add: availability_strings d ex_times elem_at_def js_lt_def js_gt_def)
  show "isWithinAvailability (fixed_zone 0) (JStr ''0050-06-10'') (JStr ''10:00'') = False"
    by (simp add: availability_strings d)
qed

end
